theory Spec2Isabelle
  imports Main "HOL-Library.Word"
begin

unbundle bit_operations_syntax

section \<open>Board geometry used by bitboard.cpp\<close>

text \<open>
  A \<open>Bitboard\<close> is a 64-bit unsigned word, bit \<open>i\<close> standing for square \<open>i\<close>.
  A \<open>Square\<close> is a C++ enumeration over \<open>int\<close>: \<open>SQ_A1 = 0\<close>, ..., \<open>SQ_H8 = 63\<close>,
  and \<open>Square(s + step)\<close> may lie outside that range, so squares are integers here.
\<close>

type_synonym Bitboard = "64 word"
type_synonym Square = int

datatype PieceType = PAWN | KNIGHT | BISHOP | ROOK | QUEEN | KING

datatype Direction =
  NORTH | EAST | SOUTH | WEST | NORTH_EAST | SOUTH_EAST | SOUTH_WEST | NORTH_WEST

text \<open>
  Modelled from the spec: the header with the enumerations and the inline geometry helpers
  (\<open>Direction\<close> values, \<open>is_ok\<close>, \<open>file_of\<close>, \<open>rank_of\<close>, \<open>square_bb\<close>, \<open>rank_bb\<close>,
  \<open>file_bb\<close>, the edge masks) is not among the sources. The spec fixes squares as
  \<open>rank * 8 + file\<close>, so one step north is \<open>+8\<close> and one step east is \<open>+1\<close>.
\<close>

fun dir_val :: "Direction \<Rightarrow> int" where
  "dir_val NORTH = 8"
| "dir_val EAST = 1"
| "dir_val SOUTH = - 8"
| "dir_val WEST = - 1"
| "dir_val NORTH_EAST = 9"
| "dir_val SOUTH_EAST = - 7"
| "dir_val SOUTH_WEST = - 9"
| "dir_val NORTH_WEST = 7"

definition is_ok :: "Square \<Rightarrow> bool" where
  "is_ok s \<longleftrightarrow> 0 \<le> s \<and> s \<le> 63"

definition file_of :: "Square \<Rightarrow> int" where
  "file_of s = s mod 8"

definition rank_of :: "Square \<Rightarrow> int" where
  "rank_of s = s div 8"

text \<open>
  \<open>SquareBB[s] = 1ULL << s\<close> (filled by \<open>Bitboards::init\<close>); \<open>square_bb\<close> reads that table.
\<close>

definition square_bb :: "Square \<Rightarrow> Bitboard" where
  "square_bb s = push_bit (nat s) 1"

text \<open>
  \<open>SquareDistance[s1][s2] = max(distance<File>(s1, s2), distance<Rank>(s1, s2))\<close>
  (filled by \<open>Bitboards::init\<close>); \<open>distance\<close> reads that table.
\<close>

definition distance :: "Square \<Rightarrow> Square \<Rightarrow> int" where
  "distance s1 s2 = max \<bar>file_of s1 - file_of s2\<bar> \<bar>rank_of s1 - rank_of s2\<bar>"

definition Rank1BB :: Bitboard where "Rank1BB = 0xFF"
definition Rank8BB :: Bitboard where "Rank8BB = push_bit 56 Rank1BB"
definition FileABB :: Bitboard where "FileABB = 0x0101010101010101"
definition FileHBB :: Bitboard where "FileHBB = push_bit 7 FileABB"

definition rank_bb :: "Square \<Rightarrow> Bitboard" where
  "rank_bb s = push_bit (nat (8 * rank_of s)) Rank1BB"

definition file_bb :: "Square \<Rightarrow> Bitboard" where
  "file_bb s = push_bit (nat (file_of s)) FileABB"

section \<open>safe_destination and sliding_attack\<close>

definition safe_destination :: "Square \<Rightarrow> int \<Rightarrow> Bitboard" where
  "safe_destination s step =
     (let to = s + step
      in if is_ok to \<and> distance s to \<le> 2 then square_bb to else 0)"

text \<open>
  The inner loop of \<open>sliding_attack\<close>:
  \<open>while (safe_destination(s, d) && !(occupied & s)) attacks |= (s += d);\<close>
\<close>

function ray_walk :: "Direction \<Rightarrow> Bitboard \<Rightarrow> Square \<Rightarrow> Bitboard \<Rightarrow> Bitboard" where
  "ray_walk d occupied s attacks =
     (if safe_destination s (dir_val d) \<noteq> 0 \<and> occupied AND square_bb s = 0
      then ray_walk d occupied (s + dir_val d) (attacks OR square_bb (s + dir_val d))
      else attacks)"
  by pat_completeness auto

lemma safe_destination_nonzero_ok:
  "safe_destination s step \<noteq> 0 \<Longrightarrow> is_ok (s + step)"
  by (auto simp: safe_destination_def Let_def split: if_splits)

termination ray_walk
proof (relation "measure (\<lambda>(d, occ, s, a). if 0 < dir_val d then nat (64 - s) else nat (s + 1))")
  show "wf (measure (\<lambda>(d, occ, s, a). if 0 < dir_val d then nat (64 - s) else nat (s + 1)))"
    by simp
next
  fix d :: Direction and occupied :: Bitboard and s :: Square and attacks :: Bitboard
  assume "safe_destination s (dir_val d) \<noteq> 0 \<and> occupied AND square_bb s = 0"
  then have ok: "is_ok (s + dir_val d)"
    using safe_destination_nonzero_ok by blast
  show "((d, occupied, s + dir_val d, attacks OR square_bb (s + dir_val d)), (d, occupied, s, attacks))
        \<in> measure (\<lambda>(d, occ, s, a). if 0 < dir_val d then nat (64 - s) else nat (s + 1))"
    using ok by (cases d) (auto simp: is_ok_def)
qed

declare ray_walk.simps [simp del]

definition RookDirections :: "Direction list" where
  "RookDirections = [NORTH, SOUTH, EAST, WEST]"

definition BishopDirections :: "Direction list" where
  "BishopDirections = [NORTH_EAST, SOUTH_EAST, SOUTH_WEST, NORTH_WEST]"

definition sliding_attack :: "PieceType \<Rightarrow> Square \<Rightarrow> Bitboard \<Rightarrow> Bitboard" where
  "sliding_attack pt sq occupied =
     foldl (\<lambda>attacks d. ray_walk d occupied sq attacks) 0
       (if pt = ROOK then RookDirections else BishopDirections)"

definition edges :: "Square \<Rightarrow> Bitboard" where
  "edges sq = ((Rank1BB OR Rank8BB) AND NOT (rank_bb sq)) OR ((FileABB OR FileHBB) AND NOT (file_bb sq))"


section \<open>Subset enumeration in init_table\<close>

text \<open>
  The builder steps through the subsets of a mask with
  \<open>board = (board - magic.mask) & magic.mask\<close>. The facts below are about that step,
  on integers first, then on words; the termination of the loop rests on them.
\<close>

lemma and_even_even_int: "(2 * a) AND (2 * b) = 2 * (a AND b)" for a b :: int
  by (metis push_bit_and push_bit_eq_mult mult.commute power_one_right)

lemma and_even_odd_int: "(2 * a) AND (1 + 2 * b) = 2 * (a AND b)" for a b :: int
  by (simp add: and_int.rec [of "2 * a"])

lemma and_odd_odd_int: "(1 + 2 * a) AND (1 + 2 * b) = 1 + 2 * (a AND b)" for a b :: int
  by (simp add: and_int.rec [of "1 + 2 * a"])

lemma and_odd_even_int: "(1 + 2 * a) AND (2 * b) = 2 * (a AND b)" for a b :: int
  by (simp add: and_int.rec [of "1 + 2 * a"])

lemma and_complement_int: "b AND m = b \<Longrightarrow> (b - m - 1) AND m = b" for b m :: int
proof -
  assume h: "b AND m = b"
  have "NOT m AND b = 0" using h by (metis and.assoc and.commute and.left_commute bit.conj_cancel_right and_zero_eq)
  then have "m - b = m AND NOT b" by (rule disjunctive_diff_eq_and_not)
  moreover have "b - m - 1 = NOT (m - b)" by (simp add: not_int_def)
  ultimately have "(b - m - 1) AND m = NOT (m AND NOT b) AND m" by simp
  also have "\<dots> = b AND m" by (auto simp: bit_eq_iff bit_simps)
  finally show ?thesis using h by simp
qed

lemma next_subset_int_greater:
  "0 \<le> m \<Longrightarrow> b AND m = b \<Longrightarrow> b \<noteq> m \<Longrightarrow> b < (b - m) AND m" for m b :: int
proof (induction m arbitrary: b rule: int_bit_induct)
  case zero then show ?case by simp
next
  case minus then show ?case by simp
next
  case (even k)
  from even.prems have "even b" by (metis even_and_iff even_mult_iff even_numeral)
  then obtain b' where b: "b = 2 * b'" by (auto elim: evenE)
  from even.prems b have s: "b' AND k = b'" by (simp add: and_even_even_int mult.commute [of k 2])
  have "b' < (b' - k) AND k" using even.IH [of b'] even.prems s b by auto
  moreover have "(b - k * 2) AND (k * 2) = 2 * ((b' - k) AND k)"
    using and_even_even_int [of "b' - k" k] by (simp add: b algebra_simps)
  ultimately show ?case using b by simp
next
  case (odd k)
  show ?case
  proof (cases "even b")
    case True
    then obtain b' where b: "b = 2 * b'" by (auto elim: evenE)
    from odd.prems b have s: "b' AND k = b'" by (simp add: and_even_odd_int mult.commute [of k 2])
    have e1: "b - (1 + 2 * k) = 1 + 2 * (b' - k - 1)" by (simp add: b)
    have "(b - (1 + k * 2)) AND (1 + k * 2) = (b - (1 + 2 * k)) AND (1 + 2 * k)"
      by (simp add: mult.commute)
    also have "\<dots> = (1 + 2 * (b' - k - 1)) AND (1 + 2 * k)" by (simp only: e1)
    also have "\<dots> = 1 + 2 * ((b' - k - 1) AND k)" by (rule and_odd_odd_int)
    finally have "(b - (1 + k * 2)) AND (1 + k * 2) = 1 + 2 * ((b' - k - 1) AND k)" .
    then show ?thesis using and_complement_int [OF s] b by simp
  next
    case False
    then obtain b' where b: "b = 1 + 2 * b'" by (auto elim: oddE simp: algebra_simps)
    from odd.prems b have s: "b' AND k = b'" by (simp add: and_odd_odd_int mult.commute [of k 2])
    have ne: "b' \<noteq> k" using odd.prems b by auto
    have "b' < (b' - k) AND k" using odd.IH [of b'] odd.prems s ne by auto
    moreover have "(b - (1 + k * 2)) AND (1 + k * 2) = 2 * ((b' - k) AND k)"
      using and_even_odd_int [of "b' - k" k] by (simp add: b algebra_simps)
    ultimately show ?thesis using b by simp
  qed
qed

lemma next_subset_int_least:
  "0 \<le> m \<Longrightarrow> b AND m = b \<Longrightarrow> c AND m = c \<Longrightarrow> b < c \<Longrightarrow> (b - m) AND m \<le> c" for m b c :: int
proof (induction m arbitrary: b c rule: int_bit_induct)
  case zero then show ?case by simp
next
  case minus then show ?case by simp
next
  case (even k)
  from even.prems have "even b" "even c" by (metis even_and_iff even_mult_iff even_numeral)+
  then obtain b' c' where b: "b = 2 * b'" and c: "c = 2 * c'" by (auto elim!: evenE)
  from even.prems b c have s: "b' AND k = b'" "c' AND k = c'" by (simp_all add: and_even_even_int mult.commute [of k 2])
  have "(b' - k) AND k \<le> c'" using even.IH [of b' c'] even.prems s b c by auto
  moreover have "(b - k * 2) AND (k * 2) = 2 * ((b' - k) AND k)"
    using and_even_even_int [of "b' - k" k] by (simp add: b algebra_simps)
  ultimately show ?case using c by simp
next
  case (odd k)
  show ?case
  proof (cases "even b")
    case True
    then obtain b' where b: "b = 2 * b'" by (auto elim: evenE)
    from odd.prems b have s: "b' AND k = b'" by (simp add: and_even_odd_int mult.commute [of k 2])
    have e1: "b - (1 + 2 * k) = 1 + 2 * (b' - k - 1)" by (simp add: b)
    have "(b - (1 + k * 2)) AND (1 + k * 2) = (b - (1 + 2 * k)) AND (1 + 2 * k)"
      by (simp add: mult.commute)
    also have "\<dots> = (1 + 2 * (b' - k - 1)) AND (1 + 2 * k)" by (simp only: e1)
    also have "\<dots> = 1 + 2 * ((b' - k - 1) AND k)" by (rule and_odd_odd_int)
    finally have "(b - (1 + k * 2)) AND (1 + k * 2) = 1 + 2 * ((b' - k - 1) AND k)" .
    then show ?thesis using and_complement_int [OF s] b odd.prems by simp
  next
    case False
    then obtain b' where b: "b = 1 + 2 * b'" by (auto elim: oddE simp: algebra_simps)
    from odd.prems b have s: "b' AND k = b'" by (simp add: and_odd_odd_int mult.commute [of k 2])
    define c' where "c' = c div 2"
    define cb where "cb = c mod 2"
    have c: "c = cb + 2 * c'" by (simp add: c'_def cb_def)
    have cb: "cb = 0 \<or> cb = 1" unfolding cb_def by presburger
    have sc: "c' AND k = c'" using odd.prems(3) c cb by (auto simp: and_even_odd_int and_odd_odd_int mult.commute [of k 2])
    have lt: "b' < c'" using odd.prems(4) b c cb by auto
    have "(b' - k) AND k \<le> c'" using odd.IH [of b' c'] odd.prems s sc lt by auto
    moreover have "(b - (1 + k * 2)) AND (1 + k * 2) = 2 * ((b' - k) AND k)"
      using and_even_odd_int [of "b' - k" k] by (simp add: b algebra_simps)
    ultimately show ?thesis using c cb by auto
  qed
qed

lemma uint_next_subset:
  "uint ((b - m) AND m) = (uint b - uint m) AND uint m" for b m :: "'a::len word"
proof -
  have nn: "0 \<le> (uint b - uint m) AND uint m" by simp
  have le: "(uint b - uint m) AND uint m \<le> uint m" by (rule AND_upper2) simp
  have lt: "(uint b - uint m) AND uint m < 2 ^ LENGTH('a)"
    using le uint_lt2p [of m] by linarith
  have "uint ((b - m) AND m) = take_bit LENGTH('a) (uint b - uint m) AND uint m"
    by (simp add: uint_and uint_word_arith_bintrs)
  also have "\<dots> = (uint b - uint m) AND uint m"
    by (rule bit_eqI) (auto simp: bit_simps dest: bit_imp_le_length)
  finally show ?thesis .
qed

lemma subset_uint_iff: "b AND m = b \<longleftrightarrow> uint b AND uint m = uint b" for b m :: "'a::len word"
  by (metis uint_and word_uint_eq_iff)

lemma next_subset_greater:
  "b AND m = b \<Longrightarrow> b \<noteq> m \<Longrightarrow> b < (b - m) AND m" for b m :: "'a::len word"
proof -
  assume s: "b AND m = b" and ne: "b \<noteq> m"
  have "uint b AND uint m = uint b" using s by (simp add: subset_uint_iff)
  moreover have "uint b \<noteq> uint m" using ne by (simp add: word_uint_eq_iff)
  ultimately have "uint b < (uint b - uint m) AND uint m"
    using next_subset_int_greater [of "uint m" "uint b"] by simp
  then show ?thesis by (simp add: word_less_def uint_next_subset)
qed

lemma next_subset_least:
  "b AND m = b \<Longrightarrow> c AND m = c \<Longrightarrow> b < c \<Longrightarrow> (b - m) AND m \<le> c" for b m c :: "'a::len word"
proof -
  assume s: "b AND m = b" and t: "c AND m = c" and lt: "b < c"
  have "uint b AND uint m = uint b" "uint c AND uint m = uint c"
    using s t by (simp_all add: subset_uint_iff)
  moreover have "uint b < uint c" using lt by (simp add: word_less_def)
  ultimately have "(uint b - uint m) AND uint m \<le> uint c"
    using next_subset_int_least [of "uint m" "uint b" "uint c"] by simp
  then show ?thesis by (simp add: word_le_def uint_next_subset)
qed

lemma next_subset_is_subset: "((b - m) AND m) AND m = (b - m) AND m" for b m :: "'a::len word"
  by (simp add: and.assoc)

lemma subset_le: "b AND m = b \<Longrightarrow> b \<le> m" for b m :: "'a::len word"
  by (metis word_and_le1)

text \<open>
  The boards visited by \<open>do { ...; board = (board - mask) & mask; } while (board);\<close>
  started at \<open>board\<close>, in order.
\<close>

function carry_rippler :: "Bitboard \<Rightarrow> Bitboard \<Rightarrow> Bitboard list" where
  "carry_rippler msk board =
     (let board' = (board - msk) AND msk
      in if board' \<noteq> 0 then board # carry_rippler msk board' else [board])"
  by pat_completeness auto

termination carry_rippler
proof (relation "measure (\<lambda>(m, b). if b AND m = b then unat m - unat b else unat m + 1)")
  show "wf (measure (\<lambda>(m, b). if b AND m = b then unat m - unat b else unat m + 1))" by simp
next
  fix msk board board' :: Bitboard
  assume b': "board' = (board - msk) AND msk" and nz: "board' \<noteq> 0"
  have s': "board' AND msk = board'" by (simp add: b' and.assoc)
  have le': "unat board' \<le> unat msk" using subset_le [OF s'] by (simp add: word_le_nat_alt)
  show "((msk, board'), (msk, board)) \<in> measure (\<lambda>(m, b). if b AND m = b then unat m - unat b else unat m + 1)"
  proof (cases "board AND msk = board")
    case True
    have "board \<noteq> msk" using nz b' by auto
    then have "unat board < unat board'" using next_subset_greater [OF True] b' by (simp add: word_less_nat_alt)
    then show ?thesis using s' le' True by simp
  next
    case False
    then show ?thesis using s' le' by simp
  qed
qed

declare carry_rippler.simps [simp del]

text \<open>
  Modelled from the spec: \<open>popcount\<close> is declared in the missing header; the spec gives
  it as the number of set bits of a bitboard.
\<close>

definition popcount :: "Bitboard \<Rightarrow> nat" where
  "popcount b = length (filter (bit b) [0..<64])"

lemma carry_rippler_from:
  "board AND msk = board \<Longrightarrow>
     sorted_wrt (<) (carry_rippler msk board) \<and>
     set (carry_rippler msk board) = {c. c AND msk = c \<and> board \<le> c}"
proof (induction msk board rule: carry_rippler.induct)
  case (1 msk board)
  define board' where "board' = (board - msk) AND msk"
  have s': "board' AND msk = board'" by (simp add: board'_def and.assoc)
  show ?case
  proof (cases "board' = 0")
    case True
    have eq: "board = msk"
    proof (rule ccontr)
      assume "board \<noteq> msk"
      then have "board < board'" using next_subset_greater [OF "1.prems"] by (simp add: board'_def)
      then show False using True by simp
    qed
    have "{c. c AND msk = c \<and> msk \<le> c} = {msk}"
    proof (intro set_eqI iffI)
      fix c assume "c \<in> {c. c AND msk = c \<and> msk \<le> c}"
      then have "c \<le> msk" "msk \<le> c" using subset_le [of c msk] by auto
      then show "c \<in> {msk}" by simp
    qed simp
    then show ?thesis
      using True eq by (simp add: carry_rippler.simps [of msk msk] board'_def)
  next
    case False
    have ne: "board \<noteq> msk" using False by (auto simp: board'_def)
    have lt: "board < board'" using next_subset_greater [OF "1.prems" ne] by (simp add: board'_def)
    have IH: "sorted_wrt (<) (carry_rippler msk board') \<and>
              set (carry_rippler msk board') = {c. c AND msk = c \<and> board' \<le> c}"
      using "1.IH" [of board'] False s' by (simp add: board'_def)
    have unf: "carry_rippler msk board = board # carry_rippler msk board'"
      using False by (simp add: carry_rippler.simps [of msk board] board'_def Let_def)
    have set_eq: "{c. c AND msk = c \<and> board \<le> c} = insert board {c. c AND msk = c \<and> board' \<le> c}"
    proof (intro set_eqI iffI)
      fix c assume "c \<in> {c. c AND msk = c \<and> board \<le> c}"
      then have c: "c AND msk = c" "board \<le> c" by auto
      show "c \<in> insert board {c. c AND msk = c \<and> board' \<le> c}"
      proof (cases "c = board")
        case True then show ?thesis by simp
      next
        case False
        then have "board < c" using c by simp
        then have "board' \<le> c" using next_subset_least [OF "1.prems" c(1)] by (simp add: board'_def)
        then show ?thesis using c by simp
      qed
    next
      fix c assume "c \<in> insert board {c. c AND msk = c \<and> board' \<le> c}"
      then show "c \<in> {c. c AND msk = c \<and> board \<le> c}"
        using "1.prems" lt by auto
    qed
    show ?thesis
      using IH lt unfolding unf set_eq by auto
  qed
qed

lemma bits_of_word: "{n. bit (m :: Bitboard) n} = set (filter (bit m) [0..<64])"
  by (auto dest: bit_imp_le_length)

lemma card_bits: "card {n. bit (m :: Bitboard) n} = popcount m"
  by (simp only: bits_of_word popcount_def distinct_card [OF distinct_filter [OF distinct_upt]])

lemma card_subsets: "card {b :: Bitboard. b AND m = b} = 2 ^ popcount m"
proof -
  let ?f = "\<lambda>b :: Bitboard. {n. bit b n}"
  have inj: "inj_on ?f {b. b AND m = b}"
    by (rule inj_onI) (auto simp: bit_eq_iff)
  have img: "?f ` {b. b AND m = b} = Pow {n. bit m n}"
  proof (intro set_eqI iffI)
    fix S assume "S \<in> ?f ` {b. b AND m = b}"
    then obtain b where b: "b AND m = b" "S = {n. bit b n}" by auto
    have "bit b n \<Longrightarrow> bit m n" for n
      using b(1) by (metis bit_and_iff)
    then show "S \<in> Pow {n. bit m n}" using b(2) by auto
  next
    fix S assume "S \<in> Pow {n. bit m n}"
    then have S: "\<And>n. n \<in> S \<Longrightarrow> bit m n" by auto
    define w :: Bitboard where "w = horner_sum of_bool 2 (map (\<lambda>n. n \<in> S) [0..<64])"
    have bw: "bit w n \<longleftrightarrow> n < 64 \<and> n \<in> S" for n
      unfolding w_def by (auto simp: bit_horner_sum_bit_iff)
    have "n \<in> S \<Longrightarrow> n < 64" for n using S [of n] by (auto dest: bit_imp_le_length)
    then have "{n. bit w n} = S" using bw by auto
    moreover have "w AND m = w" by (rule bit_eqI) (auto simp: bit_and_iff bw S)
    ultimately show "S \<in> ?f ` {b. b AND m = b}" by auto
  qed
  have fin: "finite {n. bit m n}" unfolding bits_of_word by simp
  have "card {b. b AND m = b} = card (?f ` {b. b AND m = b})"
    using inj by (simp add: card_image)
  also have "\<dots> = 2 ^ card {n. bit m n}" unfolding img using fin by (simp add: card_Pow)
  finally show ?thesis by (simp add: card_bits)
qed

lemma carry_rippler_nonempty: "carry_rippler msk board \<noteq> []"
  by (simp add: carry_rippler.simps [of msk board] Let_def)

lemma carry_rippler_last: "(last (carry_rippler msk board) - msk) AND msk = 0"
proof (induction msk board rule: carry_rippler.induct)
  case (1 msk board)
  show ?case
  proof (cases "(board - msk) AND msk = 0")
    case True
    then show ?thesis by (simp add: carry_rippler.simps [of msk board])
  next
    case False
    then show ?thesis
      using "1.IH" [of "(board - msk) AND msk"] carry_rippler_nonempty
      by (simp add: carry_rippler.simps [of msk board] Let_def)
  qed
qed


section \<open>Magic descriptors\<close>

text \<open>
  \<open>Magic<bits>(mask, magic)\<close>: the relevant-occupancy mask of a square and its
  multiplier. The field \<open>mask\<close> is called \<open>mask_bb\<close> here.
\<close>

record Magic =
  mask_bb :: Bitboard
  magic :: Bitboard

text \<open>
  Modelled from the spec: the header defining \<open>RookBits\<close> and \<open>BishopBits\<close> is not
  among the sources; the spec gives 12 index bits for rook-like rays and 9 for
  bishop-like rays.
\<close>

definition RookBits :: nat where "RookBits = 12"
definition BishopBits :: nat where "BishopBits = 9"

text \<open>
  Modelled from the spec: \<open>Magic<bits>::index\<close> is declared in the missing header. The
  spec: reduce the occupancy to \<open>occupancy & mask\<close>, multiply by the 64-bit multiplier
  and take the top \<open>bits\<close> bits of the product.
\<close>

definition Magic_index :: "nat \<Rightarrow> Magic \<Rightarrow> Bitboard \<Rightarrow> nat" where
  "Magic_index bits m occupied = unat (drop_bit (64 - bits) ((occupied AND mask_bb m) * magic m))"

text \<open>The squares \<open>SQ_A1, SQ_B1, ..., SQ_H8\<close> in enumeration order.\<close>

definition all_squares :: "Square list" where
  "all_squares = map int [0..<64]"

text \<open>
  The multipliers of \<open>init_rook_magic\<close> and \<open>init_bishop_magic\<close>, in the order of the
  array initialisers (entry \<open>i\<close> is written next to the mask of square \<open>i\<close>).
\<close>

definition RookMultipliers :: "Bitboard list" where
  "RookMultipliers =
    [
     0x0000002044010082, 0x0000404208010084, 0x0001000820840021, 0x0000080004100201,
     0x0001002044100009, 0x0000A50040A00111, 0x00050010A283C001, 0x0013110080244202,
     0x00002C0058802600, 0x0001080850022400, 0x0007000400009100, 0x000A001058602200,
     0x0008104020040200, 0x0020028044900080, 0x0040002000100020, 0x00ED8005C2610100,
     0x0000330040960004, 0x00025014480C0009, 0x0004000802010004, 0x0006009001420004,
     0x0015002010010002, 0x0020001004001000, 0x000A021100220008, 0x0080004000204010,
     0x0001000491000246, 0x0003100A04001658, 0x0000200080200100, 0x0000402008008004,
     0x0004000200100100, 0x0010002000200402, 0x0040000800100010, 0x00B4C003888001A0,
     0x0001440200008829, 0x0002000040008001, 0x0002003A00081910, 0x0000200200041001,
     0x0010100080080002, 0x0000200020040008, 0x000C400100082480, 0x0080002040004013,
     0x0001F2000286224C, 0x0001440010009218, 0x0003E80040200210, 0x0000010004100800,
     0x0008002020040002, 0x0002020008104080, 0x0000404000200008, 0x007A808000400AD2,
     0x004200004091040A, 0x0032000041180200, 0x0001000400080100, 0x0001000100040800,
     0x0044004010082004, 0x0022001080042040, 0x0032000A00208240, 0x0040800080400010,
     0x0200020400288043, 0x040008100402138D, 0x0A004400180A0010, 0x0100048100100800,
     0x0900082002100005, 0x0A00100880402004, 0x1100088410400100, 0x0200110200204080
    ]"

definition BishopMultipliers :: "Bitboard list" where
  "BishopMultipliers =
    [
     0x0000500102002008, 0x0000010101000880, 0x0000000042008100, 0x0000000001200404,
     0x0000000002008022, 0x0000000201010040, 0x0000002080080080, 0x000100080084004C,
     0x0000808100040400, 0x0040100401004200, 0x0000680208020000, 0x0000000120020104,
     0x0000000201010028, 0x000002000A0100A6, 0x0001001202004000, 0x00040200840087F1,
     0x0018061012002180, 0x0008002100400020, 0x0000A00D40800700, 0x0000205004000480,
     0x0000002008003020, 0x0000402080424020, 0x0004020044041000, 0x0004040201000800,
     0x00080E090062000F, 0x0010040080880410, 0x0000220020040400, 0x0008010040100802,
     0x0002010040040040, 0x0000108200401200, 0x0000820024C80021, 0x0000100400100080,
     0x0002820001004010, 0x0000090002008040, 0x001001000020110E, 0x0004040030410042,
     0x0004010010089080, 0x000C010002040C00, 0x0000100060020480, 0x0004010102080108,
     0x0000807810040200, 0x0000083021040020, 0x0004020600840100, 0x0018040040401FC2,
     0x003C001801098204, 0x0002042010200820, 0x0001004028010100, 0x0000804000808100,
     0x0000004010080208, 0x0000010020820040, 0x0000020104004000, 0x0000140101011C72,
     0x0000004400402640, 0x0000020010108160, 0x0000010808008002, 0x0000040808010006,
     0x0002040082002000, 0x00040080880040F6, 0x00000800401FC800, 0x0000808041000000,
     0x0008020004014060, 0x0030040181041018, 0x0000202100202100, 0x0060002200404200
    ]"

definition init_rook_magic :: "Magic list" where
  "init_rook_magic =
     map2 (\<lambda>s c. \<lparr>mask_bb = sliding_attack ROOK s 0 AND NOT (edges s), magic = c\<rparr>)
       all_squares RookMultipliers"

definition init_bishop_magic :: "Magic list" where
  "init_bishop_magic =
     map2 (\<lambda>s c. \<lparr>mask_bb = sliding_attack BISHOP s 0 AND NOT (edges s), magic = c\<rparr>)
       all_squares BishopMultipliers"

section \<open>init_table\<close>

datatype error = AssertionFailed

text \<open>
  The \<open>do ... while (board)\<close> loop of \<open>init_table\<close> for one square. The arrays
  \<open>occured\<close> and \<open>table[s]\<close> have \<open>1 << bits\<close> entries and are functions of the index
  here. \<open>assert\<close> expands to nothing when \<open>NDEBUG\<close> is defined: the flag \<open>asserts\<close> is
  \<open>True\<close> for a build that checks assertions and \<open>False\<close> for an \<open>NDEBUG\<close> build.
\<close>

function fill_row ::
  "bool \<Rightarrow> PieceType \<Rightarrow> nat \<Rightarrow> Magic \<Rightarrow> Square \<Rightarrow> Bitboard \<Rightarrow> (nat \<Rightarrow> bool) \<Rightarrow> (nat \<Rightarrow> Bitboard)
     \<Rightarrow> error + (nat \<Rightarrow> bool) \<times> (nat \<Rightarrow> Bitboard)" where
  "fill_row asserts pt bits m s board occured row =
     (let idx = Magic_index bits m board
      in if asserts \<and> \<not> idx < 2 ^ bits then Inl AssertionFailed
         else if asserts \<and> occured idx then Inl AssertionFailed
         else
           let occured' = occured(idx := True);
               row' = row(idx := sliding_attack pt s board);
               board' = (board - mask_bb m) AND mask_bb m
           in if board' \<noteq> 0 then fill_row asserts pt bits m s board' occured' row'
              else Inr (occured', row'))"
  by pat_completeness auto

termination fill_row
proof (relation "measure (\<lambda>(a, pt, bits, m, s, b, occ, row).
         if b AND mask_bb m = b then unat (mask_bb m) - unat b else unat (mask_bb m) + 1)")
  show "wf (measure (\<lambda>(a, pt, bits, m, s, b, occ, row).
         if b AND mask_bb m = b then unat (mask_bb m) - unat b else unat (mask_bb m) + 1))"
    by simp
next
  fix asserts :: bool and pt :: PieceType and bits :: nat and m :: Magic and s :: Square
    and board board' :: Bitboard and occured occured' :: "nat \<Rightarrow> bool"
    and row row' :: "nat \<Rightarrow> Bitboard" and idx :: nat
  assume b': "board' = (board - mask_bb m) AND mask_bb m" and nz: "board' \<noteq> 0"
  have s': "board' AND mask_bb m = board'" by (simp add: b' and.assoc)
  have le': "unat board' \<le> unat (mask_bb m)"
    using subset_le [OF s'] by (simp add: word_le_nat_alt)
  show "((asserts, pt, bits, m, s, board', occured', row'), (asserts, pt, bits, m, s, board, occured, row))
        \<in> measure (\<lambda>(a, pt, bits, m, s, b, occ, row).
             if b AND mask_bb m = b then unat (mask_bb m) - unat b else unat (mask_bb m) + 1)"
  proof (cases "board AND mask_bb m = board")
    case True
    have "board \<noteq> mask_bb m" using nz b' by auto
    then have "unat board < unat board'"
      using next_subset_greater [OF True] b' by (simp add: word_less_nat_alt)
    then show ?thesis using s' le' True by simp
  next
    case False
    then show ?thesis using s' le' by simp
  qed
qed

declare fill_row.simps [simp del]

text \<open>
  \<open>init_table\<close>: for each square (\<open>init_table_step\<close>), \<open>occured.fill(false)\<close>, then the
  loop above on \<open>table[s]\<close>, starting from the zero-initialised table. A failed assertion
  ends the whole construction.
\<close>

definition init_table_step ::
  "bool \<Rightarrow> PieceType \<Rightarrow> nat \<Rightarrow> Magic list \<Rightarrow> error + (Square \<Rightarrow> nat \<Rightarrow> Bitboard) \<Rightarrow> Square
     \<Rightarrow> error + (Square \<Rightarrow> nat \<Rightarrow> Bitboard)" where
  "init_table_step asserts pt bits magics acc s =
     (case acc of
        Inl e \<Rightarrow> Inl e
      | Inr table \<Rightarrow>
          (case fill_row asserts pt bits (magics ! nat s) s 0 (\<lambda>_. False) (table s) of
             Inl e \<Rightarrow> Inl e
           | Inr (occured, row) \<Rightarrow> Inr (table(s := row))))"

definition init_table ::
  "bool \<Rightarrow> PieceType \<Rightarrow> nat \<Rightarrow> Magic list \<Rightarrow> error + (Square \<Rightarrow> nat \<Rightarrow> Bitboard)" where
  "init_table asserts pt bits magics =
     foldl (init_table_step asserts pt bits magics) (Inr (\<lambda>_ _. 0)) all_squares"

section \<open>Bitboards::init\<close>

text \<open>
  The tables written by \<open>Bitboards::init\<close> that the properties below are about.
  \<open>SquareBB\<close> and \<open>SquareDistance\<close> are the functions \<open>square_bb\<close> and \<open>distance\<close>
  above; \<open>PopCnt16\<close> and \<open>PawnAttacks\<close> are left out.
\<close>

record Tables =
  BishopMagics :: "Magic list"
  RookMagics :: "Magic list"
  BishopAttackTable :: "Square \<Rightarrow> nat \<Rightarrow> Bitboard"
  RookAttackTable :: "Square \<Rightarrow> nat \<Rightarrow> Bitboard"
  PseudoAttacks :: "PieceType \<Rightarrow> Square \<Rightarrow> Bitboard"
  LineBB :: "Square \<Rightarrow> Square \<Rightarrow> Bitboard"
  BetweenBB :: "Square \<Rightarrow> Square \<Rightarrow> Bitboard"

text \<open>
  Modelled from the spec: \<open>attacks_bb\<close> is declared in the missing header. The spec: for
  sliding categories the query reduces to a magic-index lookup in the category's table;
  the queen's set is the union of the rook's and the bishop's; for the other categories
  it is the precomputed pseudo-attack set.
\<close>

definition attacks_bb :: "Tables \<Rightarrow> PieceType \<Rightarrow> Square \<Rightarrow> Bitboard \<Rightarrow> Bitboard" where
  "attacks_bb t pt s occupied =
     (case pt of
        BISHOP \<Rightarrow> BishopAttackTable t s (Magic_index BishopBits (BishopMagics t ! nat s) occupied)
      | ROOK \<Rightarrow> RookAttackTable t s (Magic_index RookBits (RookMagics t ! nat s) occupied)
      | QUEEN \<Rightarrow>
          BishopAttackTable t s (Magic_index BishopBits (BishopMagics t ! nat s) occupied) OR
          RookAttackTable t s (Magic_index RookBits (RookMagics t ! nat s) occupied)
      | _ \<Rightarrow> PseudoAttacks t pt s)"

definition upd2 :: "('a \<Rightarrow> 'b \<Rightarrow> 'c) \<Rightarrow> 'a \<Rightarrow> 'b \<Rightarrow> 'c \<Rightarrow> ('a \<Rightarrow> 'b \<Rightarrow> 'c)" where
  "upd2 f a b v = f(a := (f a)(b := v))"

text \<open>The body of the loop over \<open>s2\<close>, for a fixed \<open>s1\<close> and piece type.\<close>

definition line_between_step :: "Square \<Rightarrow> PieceType \<Rightarrow> Tables \<Rightarrow> Square \<Rightarrow> Tables" where
  "line_between_step s1 pt t s2 =
     (let t' =
        (if PseudoAttacks t pt s1 AND square_bb s2 \<noteq> 0
         then t\<lparr>LineBB := upd2 (LineBB t) s1 s2
                   ((attacks_bb t pt s1 0 AND attacks_bb t pt s2 0) OR square_bb s1 OR square_bb s2),
                 BetweenBB := upd2 (BetweenBB t) s1 s2
                   (attacks_bb t pt s1 (square_bb s2) AND attacks_bb t pt s2 (square_bb s1))\<rparr>
         else t)
      in t'\<lparr>BetweenBB := upd2 (BetweenBB t') s1 s2 (BetweenBB t' s1 s2 OR square_bb s2)\<rparr>)"

definition KingSteps :: "int list" where
  "KingSteps = [- 9, - 8, - 7, - 1, 1, 7, 8, 9]"

definition KnightSteps :: "int list" where
  "KnightSteps = [- 17, - 15, - 10, - 6, 6, 10, 15, 17]"

text \<open>The body of the loop over \<open>s1\<close> (without \<open>PawnAttacks\<close>).\<close>

definition square_step :: "Tables \<Rightarrow> Square \<Rightarrow> Tables" where
  "square_step t s1 =
     (let t1 = foldl (\<lambda>t step. t\<lparr>PseudoAttacks :=
                   upd2 (PseudoAttacks t) KING s1 (PseudoAttacks t KING s1 OR safe_destination s1 step)\<rparr>)
                 t KingSteps;
          t2 = foldl (\<lambda>t step. t\<lparr>PseudoAttacks :=
                   upd2 (PseudoAttacks t) KNIGHT s1 (PseudoAttacks t KNIGHT s1 OR safe_destination s1 step)\<rparr>)
                 t1 KnightSteps;
          b = attacks_bb t2 BISHOP s1 0;
          t3 = t2\<lparr>PseudoAttacks := upd2 (upd2 (PseudoAttacks t2) BISHOP s1 b) QUEEN s1 b\<rparr>;
          r = attacks_bb t3 ROOK s1 0;
          t4 = t3\<lparr>PseudoAttacks :=
                 upd2 (upd2 (PseudoAttacks t3) ROOK s1 r) QUEEN s1 (PseudoAttacks t3 QUEEN s1 OR r)\<rparr>
      in foldl (\<lambda>t pt. foldl (line_between_step s1 pt) t all_squares) t4 [BISHOP, ROOK])"

definition Bitboards_init :: "bool \<Rightarrow> error + Tables" where
  "Bitboards_init asserts =
     (let bm = init_bishop_magic; rm = init_rook_magic
      in case init_table asserts BISHOP BishopBits bm of
           Inl e \<Rightarrow> Inl e
         | Inr bt \<Rightarrow>
             (case init_table asserts ROOK RookBits rm of
                Inl e \<Rightarrow> Inl e
              | Inr rt \<Rightarrow>
                  Inr (foldl square_step
                         \<lparr>BishopMagics = bm, RookMagics = rm,
                          BishopAttackTable = bt, RookAttackTable = rt,
                          PseudoAttacks = (\<lambda>_ _. 0), LineBB = (\<lambda>_ _. 0), BetweenBB = (\<lambda>_ _. 0)\<rparr>
                         all_squares)))"

section \<open>The ray walk as the specification words it\<close>

text \<open>
  The specification's walk (section 4.2): from the current square, if the step leaves the
  board, stop; otherwise add the destination to the result, and if the destination is a
  member of the occupancy, stop; otherwise go on from the destination.
\<close>

function spec_ray :: "Direction \<Rightarrow> Bitboard \<Rightarrow> Square \<Rightarrow> Bitboard" where
  "spec_ray d occupancy s =
     (if safe_destination s (dir_val d) = 0 then 0
      else square_bb (s + dir_val d) OR
           (if occupancy AND square_bb (s + dir_val d) \<noteq> 0 then 0
            else spec_ray d occupancy (s + dir_val d)))"
  by pat_completeness auto

termination spec_ray
proof (relation "measure (\<lambda>(d, occ, s). if 0 < dir_val d then nat (64 - s) else nat (s + 1))")
  show "wf (measure (\<lambda>(d, occ, s). if 0 < dir_val d then nat (64 - s) else nat (s + 1)))"
    by simp
next
  fix d :: Direction and occupancy :: Bitboard and s :: Square
  assume "safe_destination s (dir_val d) \<noteq> 0"
  then have ok: "is_ok (s + dir_val d)"
    by (rule safe_destination_nonzero_ok)
  show "((d, occupancy, s + dir_val d), (d, occupancy, s))
        \<in> measure (\<lambda>(d, occ, s). if 0 < dir_val d then nat (64 - s) else nat (s + 1))"
    using ok by (cases d) (auto simp: is_ok_def)
qed

declare spec_ray.simps [simp del]

definition spec_sliding_attack :: "PieceType \<Rightarrow> Square \<Rightarrow> Bitboard \<Rightarrow> Bitboard" where
  "spec_sliding_attack pt origin occupancy =
     foldl (\<lambda>result d. result OR spec_ray d occupancy origin) 0
       (if pt = ROOK then RookDirections else BishopDirections)"

text \<open>Chebyshev distance on the coordinates of two squares, as the specification defines it.\<close>

definition chebyshev :: "Square \<Rightarrow> Square \<Rightarrow> int" where
  "chebyshev s t = max \<bar>t mod 8 - s mod 8\<bar> \<bar>t div 8 - s div 8\<bar>"

text \<open>
  A board-edge square with respect to \<open>s\<close>: on rank 1 or 8 but not on the rank of \<open>s\<close>, or
  on file A or H but not on the file of \<open>s\<close>.
\<close>

definition is_edge_for :: "Square \<Rightarrow> nat \<Rightarrow> bool" where
  "is_edge_for s n \<longleftrightarrow>
     ((n div 8 = 0 \<or> n div 8 = 7) \<and> int (n div 8) \<noteq> s div 8) \<or>
     ((n mod 8 = 0 \<or> n mod 8 = 7) \<and> int (n mod 8) \<noteq> s mod 8)"

section \<open>The builder's loop as a traversal of the enumerated subsets\<close>

text \<open>
  The loop of \<open>fill_row\<close> visits the boards of \<open>carry_rippler\<close> in order; \<open>fill_list\<close> is its
  body applied along a list of boards.
\<close>

fun fill_list ::
  "bool \<Rightarrow> PieceType \<Rightarrow> nat \<Rightarrow> Magic \<Rightarrow> Square \<Rightarrow> Bitboard list \<Rightarrow> (nat \<Rightarrow> bool) \<Rightarrow> (nat \<Rightarrow> Bitboard)
     \<Rightarrow> error + (nat \<Rightarrow> bool) \<times> (nat \<Rightarrow> Bitboard)" where
  "fill_list asserts pt bits m s [] occured row = Inr (occured, row)"
| "fill_list asserts pt bits m s (board # boards) occured row =
     (let idx = Magic_index bits m board
      in if asserts \<and> \<not> idx < 2 ^ bits then Inl AssertionFailed
         else if asserts \<and> occured idx then Inl AssertionFailed
         else fill_list asserts pt bits m s boards
                (occured(idx := True)) (row(idx := sliding_attack pt s board)))"

text \<open>The squares of a ray at which the walk reads the occupancy and can step on.\<close>

function ray_squares :: "Direction \<Rightarrow> Square \<Rightarrow> Square list" where
  "ray_squares d s =
     (if safe_destination s (dir_val d) \<noteq> 0 then s # ray_squares d (s + dir_val d) else [])"
  by pat_completeness auto

termination ray_squares
proof (relation "measure (\<lambda>(d, s). if 0 < dir_val d then nat (64 - s) else nat (s + 1))")
  show "wf (measure (\<lambda>(d, s). if 0 < dir_val d then nat (64 - s) else nat (s + 1)))"
    by simp
next
  fix d :: Direction and s :: Square
  assume "safe_destination s (dir_val d) \<noteq> 0"
  then have ok: "is_ok (s + dir_val d)"
    by (rule safe_destination_nonzero_ok)
  show "((d, s + dir_val d), (d, s))
        \<in> measure (\<lambda>(d, s). if 0 < dir_val d then nat (64 - s) else nat (s + 1))"
    using ok by (cases d) (auto simp: is_ok_def)
qed

declare ray_squares.simps [simp del]

text \<open>The lookup in one row of a table, after the builder's loop for that square.\<close>

definition row_after_fill ::
  "bool \<Rightarrow> PieceType \<Rightarrow> nat \<Rightarrow> Magic \<Rightarrow> Square \<Rightarrow> error + (nat \<Rightarrow> Bitboard)" where
  "row_after_fill asserts pt bits m s =
     (case fill_row asserts pt bits m s 0 (\<lambda>_. False) (\<lambda>_. 0) of
        Inl e \<Rightarrow> Inl e
      | Inr (occured, row) \<Rightarrow> Inr row)"

text \<open>\<open>attacks_bb(pt, s, occupied)\<close> on the tables left by \<open>Bitboards::init\<close>.\<close>

definition attacks_after_init :: "bool \<Rightarrow> PieceType \<Rightarrow> Square \<Rightarrow> Bitboard \<Rightarrow> error + Bitboard" where
  "attacks_after_init asserts pt s occupied =
     (case Bitboards_init asserts of
        Inl e \<Rightarrow> Inl e
      | Inr t \<Rightarrow> Inr (attacks_bb t pt s occupied))"

definition line_after_init :: "bool \<Rightarrow> Square \<Rightarrow> Square \<Rightarrow> error + Bitboard" where
  "line_after_init asserts s1 s2 =
     (case Bitboards_init asserts of
        Inl e \<Rightarrow> Inl e
      | Inr t \<Rightarrow> Inr (LineBB t s1 s2))"

definition between_after_init :: "bool \<Rightarrow> Square \<Rightarrow> Square \<Rightarrow> error + Bitboard" where
  "between_after_init asserts s1 s2 =
     (case Bitboards_init asserts of
        Inl e \<Rightarrow> Inl e
      | Inr t \<Rightarrow> Inr (BetweenBB t s1 s2))"

text \<open>The index width and the descriptors of a sliding category, as \<open>Bitboards::init\<close> pairs them.\<close>

definition sliding_bits :: "PieceType \<Rightarrow> nat" where
  "sliding_bits pt = (if pt = ROOK then RookBits else BishopBits)"

definition sliding_magics :: "PieceType \<Rightarrow> Magic list" where
  "sliding_magics pt = (if pt = ROOK then init_rook_magic else init_bishop_magic)"

text \<open>The file and rank components of a direction: \<open>dir_val d = 8 * dir_rank d + dir_file d\<close>.\<close>

fun dir_file :: "Direction \<Rightarrow> int" where
  "dir_file NORTH = 0" | "dir_file SOUTH = 0" | "dir_file EAST = 1" | "dir_file WEST = - 1"
| "dir_file NORTH_EAST = 1" | "dir_file SOUTH_EAST = 1" | "dir_file SOUTH_WEST = - 1" | "dir_file NORTH_WEST = - 1"

fun dir_rank :: "Direction \<Rightarrow> int" where
  "dir_rank NORTH = 1" | "dir_rank SOUTH = - 1" | "dir_rank EAST = 0" | "dir_rank WEST = 0"
| "dir_rank NORTH_EAST = 1" | "dir_rank SOUTH_EAST = - 1" | "dir_rank SOUTH_WEST = - 1" | "dir_rank NORTH_WEST = 1"

text \<open>Two states with the same descriptors and attack tables.\<close>

definition same_tables :: "Tables \<Rightarrow> Tables \<Rightarrow> bool" where
  "same_tables t t' \<longleftrightarrow>
     BishopMagics t' = BishopMagics t \<and> RookMagics t' = RookMagics t \<and>
     BishopAttackTable t' = BishopAttackTable t \<and> RookAttackTable t' = RookAttackTable t"

text \<open>
  The values that the loop over \<open>s2\<close> assigns, and the combined effect of the two passes
  (\<open>BISHOP\<close>, then \<open>ROOK\<close>) on one entry of \<open>LineBB\<close> and \<open>BetweenBB\<close>.
\<close>

definition line_val :: "Tables \<Rightarrow> PieceType \<Rightarrow> Square \<Rightarrow> Square \<Rightarrow> Bitboard" where
  "line_val t pt s1 s2 =
     (attacks_bb t pt s1 0 AND attacks_bb t pt s2 0) OR square_bb s1 OR square_bb s2"

definition between_val :: "Tables \<Rightarrow> PieceType \<Rightarrow> Square \<Rightarrow> Square \<Rightarrow> Bitboard" where
  "between_val t pt s1 s2 =
     attacks_bb t pt s1 (square_bb s2) AND attacks_bb t pt s2 (square_bb s1)"

definition derived_line :: "Tables \<Rightarrow> Square \<Rightarrow> Square \<Rightarrow> Bitboard \<Rightarrow> Bitboard" where
  "derived_line t s1 s2 old =
     (if attacks_bb t ROOK s1 0 AND square_bb s2 \<noteq> 0 then line_val t ROOK s1 s2
      else if attacks_bb t BISHOP s1 0 AND square_bb s2 \<noteq> 0 then line_val t BISHOP s1 s2
      else old)"

definition derived_between :: "Tables \<Rightarrow> Square \<Rightarrow> Square \<Rightarrow> Bitboard \<Rightarrow> Bitboard" where
  "derived_between t s1 s2 old =
     (if attacks_bb t ROOK s1 0 AND square_bb s2 \<noteq> 0 then between_val t ROOK s1 s2
      else (if attacks_bb t BISHOP s1 0 AND square_bb s2 \<noteq> 0 then between_val t BISHOP s1 s2
            else old) OR square_bb s2)
     OR square_bb s2"

section \<open>Facts about the ray walk\<close>

lemmas eval_simps =
  sliding_attack_def spec_sliding_attack_def RookDirections_def BishopDirections_def
  ray_walk.simps spec_ray.simps safe_destination_def is_ok_def distance_def
  file_of_def rank_of_def square_bb_def Let_def

lemma bit_square_bb: "bit (square_bb s) n \<longleftrightarrow> n = nat s \<and> n < 64"
  by (auto simp: square_bb_def bit_exp_iff)

lemma and_square_bb_iff: "is_ok s \<Longrightarrow> b AND square_bb s \<noteq> 0 \<longleftrightarrow> bit b (nat s)"
proof -
  assume ok: "is_ok s"
  then have lt: "nat s < 64" by (auto simp: is_ok_def)
  show ?thesis
  proof
    assume "b AND square_bb s \<noteq> 0"
    then obtain n where "bit (b AND square_bb s) n" by (auto simp: bit_eq_iff)
    then show "bit b (nat s)" by (auto simp: bit_and_iff bit_square_bb)
  next
    assume "bit b (nat s)"
    then have "bit (b AND square_bb s) (nat s)" using lt by (simp add: bit_and_iff bit_square_bb)
    then show "b AND square_bb s \<noteq> 0" by auto
  qed
qed

lemma dir_val_nonzero: "dir_val d \<noteq> 0"
  by (cases d) simp_all

lemma ray_walk_step:
  "safe_destination s (dir_val d) \<noteq> 0 \<Longrightarrow> occupied AND square_bb s = 0 \<Longrightarrow>
     ray_walk d occupied s attacks =
     ray_walk d occupied (s + dir_val d) (attacks OR square_bb (s + dir_val d))"
  by (subst ray_walk.simps) simp

lemma ray_walk_stop:
  "\<not> (safe_destination s (dir_val d) \<noteq> 0 \<and> occupied AND square_bb s = 0) \<Longrightarrow>
     ray_walk d occupied s attacks = attacks"
  by (subst ray_walk.simps) auto

lemma ray_walk_occupied: "occupied AND square_bb s \<noteq> 0 \<Longrightarrow> ray_walk d occupied s attacks = attacks"
  by (simp add: ray_walk.simps [of d occupied s attacks])

lemma ray_walk_bits:
  "bit (ray_walk d occupied s attacks) n \<Longrightarrow>
     bit attacks n \<or> (0 < dir_val d \<and> s < int n) \<or> (dir_val d < 0 \<and> int n < s)"
proof (induction d occupied s attacks rule: ray_walk.induct)
  case (1 d occupied s attacks)
  show ?case
  proof (cases "safe_destination s (dir_val d) \<noteq> 0 \<and> occupied AND square_bb s = 0")
    case True
    then have ok: "is_ok (s + dir_val d)" using safe_destination_nonzero_ok by blast
    have "bit (ray_walk d occupied (s + dir_val d) (attacks OR square_bb (s + dir_val d))) n"
      using "1.prems" True by (simp add: ray_walk_step)
    then have "bit (attacks OR square_bb (s + dir_val d)) n \<or>
        (0 < dir_val d \<and> s + dir_val d < int n) \<or> (dir_val d < 0 \<and> int n < s + dir_val d)"
      using "1.IH" True by blast
    then show ?thesis
      using ok dir_val_nonzero [of d] by (auto simp: bit_or_iff bit_square_bb is_ok_def)
  next
    case False
    have "ray_walk d occupied s attacks = attacks" using False by (rule ray_walk_stop)
    then show ?thesis using "1.prems" by simp
  qed
qed

lemma foldl_ray_walk_bits:
  "bit (foldl (\<lambda>attacks d. ray_walk d occupied sq attacks) a ds) n \<Longrightarrow> bit a n \<or> int n \<noteq> sq"
proof (induction ds arbitrary: a)
  case Nil then show ?case by simp
next
  case (Cons d ds)
  then have "bit (ray_walk d occupied sq a) n \<or> int n \<noteq> sq" by simp
  then show ?case using ray_walk_bits [of d occupied sq a n] by auto
qed

lemma ray_walk_spec:
  "ray_walk d occupied s attacks =
     attacks OR (if occupied AND square_bb s \<noteq> 0 then 0 else spec_ray d occupied s)"
proof (induction d occupied s attacks rule: ray_walk.induct)
  case (1 d occupied s attacks)
  show ?case
  proof (cases "safe_destination s (dir_val d) \<noteq> 0 \<and> occupied AND square_bb s = 0")
    case True
    have "ray_walk d occupied s attacks =
          ray_walk d occupied (s + dir_val d) (attacks OR square_bb (s + dir_val d))"
      using True by (simp add: ray_walk_step)
    also have "\<dots> = (attacks OR square_bb (s + dir_val d)) OR
        (if occupied AND square_bb (s + dir_val d) \<noteq> 0 then 0 else spec_ray d occupied (s + dir_val d))"
      using "1.IH" True by blast
    also have "\<dots> = attacks OR spec_ray d occupied s"
      using True by (simp add: spec_ray.simps [of d occupied s] or.assoc)
    finally show ?thesis using True by simp
  next
    case False
    have "ray_walk d occupied s attacks = attacks" using False by (rule ray_walk_stop)
    moreover have "occupied AND square_bb s = 0 \<Longrightarrow> spec_ray d occupied s = 0"
      using False by (subst spec_ray.simps) auto
    ultimately show ?thesis by auto
  qed
qed

lemma sliding_attack_blocked_origin:
  "occupied AND square_bb sq \<noteq> 0 \<Longrightarrow> sliding_attack pt sq occupied = 0"
  by (simp add: sliding_attack_def RookDirections_def BishopDirections_def ray_walk_occupied)

section \<open>Facts about the edge masks and the magic descriptors\<close>

lemma bit_Rank1BB: "bit Rank1BB n \<longleftrightarrow> n < 8"
proof -
  have h: "Rank1BB = mask 8" by (simp add: Rank1BB_def mask_eq_exp_minus_1)
  show ?thesis by (simp only: h bit_mask_iff) (auto simp: possible_bit_word)
qed

lemma bit_FileABB: "bit FileABB n \<longleftrightarrow> n < 64 \<and> n mod 8 = 0"
proof -
  have h: "FileABB = 2 ^ 0 OR 2 ^ 8 OR 2 ^ 16 OR 2 ^ 24 OR 2 ^ 32 OR 2 ^ 40 OR 2 ^ 48 OR 2 ^ 56"
    by (simp add: FileABB_def)
  have "bit FileABB n \<longleftrightarrow> n < 64 \<and> n \<in> {0, 8, 16, 24, 32, 40, 48, 56}"
    unfolding h bit_or_iff bit_exp_iff possible_bit_word by simp blast
  also have "\<dots> \<longleftrightarrow> n < 64 \<and> n mod 8 = 0"
    by simp presburger
  finally show ?thesis .
qed

lemma sub_mod8: "f < 8 \<Longrightarrow> f \<le> n \<Longrightarrow> ((n - f) mod 8 = 0) = (n mod 8 = f)" for f n :: nat
proof -
  assume f: "f < 8" and le: "f \<le> n"
  define k where "k = n - f"
  define r where "r = k mod 8"
  have n: "n = f + k" using le by (simp add: k_def)
  have r: "r < 8" by (simp add: r_def)
  have "n mod 8 = (f + r) mod 8" by (simp add: n r_def mod_add_right_eq)
  also have "\<dots> = (if f + r < 8 then f + r else f + r - 8)"
    using f r by (simp add: mod_if)
  finally have "n mod 8 = f \<longleftrightarrow> r = 0" using f r by auto
  then show ?thesis by (simp add: k_def r_def)
qed

lemma bit_rank_bb: "is_ok s \<Longrightarrow> bit (rank_bb s) n \<longleftrightarrow> n < 64 \<and> int (n div 8) = s div 8"
proof -
  assume ok: "is_ok s"
  define r where "r = nat (s div 8)"
  have r: "r < 8" "s div 8 = int r" "nat (8 * (s div 8)) = 8 * r"
    using ok by (auto simp: r_def is_ok_def)
  have e: "rank_bb s = push_bit (8 * r) Rank1BB"
    by (simp only: rank_bb_def rank_of_def r(3))
  have "bit (rank_bb s) n \<longleftrightarrow> 8 * r \<le> n \<and> n < 64 \<and> n - 8 * r < 8"
    unfolding e bit_push_bit_iff bit_Rank1BB possible_bit_word by simp
  also have "\<dots> \<longleftrightarrow> n < 64 \<and> n div 8 = r" using r(1) by auto
  finally show ?thesis by (simp add: r(2))
qed

lemma bit_file_bb: "is_ok s \<Longrightarrow> bit (file_bb s) n \<longleftrightarrow> n < 64 \<and> int (n mod 8) = s mod 8"
proof -
  assume ok: "is_ok s"
  define f where "f = nat (s mod 8)"
  have f: "f < 8" "s mod 8 = int f"
    by (auto simp: f_def)
  have e: "file_bb s = push_bit f FileABB"
    by (simp only: file_bb_def file_of_def f_def)
  have "bit (file_bb s) n \<longleftrightarrow> f \<le> n \<and> n < 64 \<and> n - f < 64 \<and> (n - f) mod 8 = 0"
    unfolding e bit_push_bit_iff bit_FileABB possible_bit_word by simp
  also have "\<dots> \<longleftrightarrow> n < 64 \<and> n mod 8 = f"
    using sub_mod8 [OF f(1), of n] by auto
  finally show ?thesis by (simp add: f(2))
qed

lemma bit_Rank8BB: "bit Rank8BB n \<longleftrightarrow> n < 64 \<and> n div 8 = 7"
proof -
  have "bit Rank8BB n \<longleftrightarrow> 56 \<le> n \<and> n < 64 \<and> n - 56 < 8"
    unfolding Rank8BB_def bit_push_bit_iff bit_Rank1BB possible_bit_word by simp
  also have "\<dots> \<longleftrightarrow> n < 64 \<and> n div 8 = 7" by auto
  finally show ?thesis .
qed

lemma bit_FileHBB: "bit FileHBB n \<longleftrightarrow> n < 64 \<and> n mod 8 = 7"
proof -
  have "bit FileHBB n \<longleftrightarrow> 7 \<le> n \<and> n < 64 \<and> n - 7 < 64 \<and> (n - 7) mod 8 = 0"
    unfolding FileHBB_def bit_push_bit_iff bit_FileABB possible_bit_word by simp
  also have "\<dots> \<longleftrightarrow> n < 64 \<and> n mod 8 = 7"
    using sub_mod8 [of 7 n] by auto
  finally show ?thesis .
qed

lemma bit_edges: "is_ok s \<Longrightarrow> bit (edges s) n \<longleftrightarrow> n < 64 \<and> is_edge_for s n"
proof -
  assume ok: "is_ok s"
  have r1: "bit Rank1BB n \<longleftrightarrow> n < 64 \<and> n div 8 = 0" unfolding bit_Rank1BB by auto
  have "bit (edges s) n \<longleftrightarrow>
      ((bit Rank1BB n \<or> bit Rank8BB n) \<and> n < 64 \<and> \<not> bit (rank_bb s) n) \<or>
      ((bit FileABB n \<or> bit FileHBB n) \<and> n < 64 \<and> \<not> bit (file_bb s) n)"
    by (simp add: edges_def bit_or_iff bit_and_iff bit_not_iff possible_bit_word)
  then show ?thesis
    unfolding r1 bit_Rank8BB bit_FileABB bit_FileHBB bit_rank_bb [OF ok] bit_file_bb [OF ok]
      is_edge_for_def
    by auto
qed

lemma length_multipliers: "length RookMultipliers = 64" "length BishopMultipliers = 64"
  by (simp_all add: RookMultipliers_def BishopMultipliers_def)

lemma nth_all_squares: "n < 64 \<Longrightarrow> all_squares ! n = int n"
  by (simp add: all_squares_def)

lemma rook_magic_nth:
  "n < 64 \<Longrightarrow> init_rook_magic ! n =
     \<lparr>mask_bb = sliding_attack ROOK (int n) 0 AND NOT (edges (int n)), magic = RookMultipliers ! n\<rparr>"
  by (simp add: init_rook_magic_def length_multipliers all_squares_def)

lemma bishop_magic_nth:
  "n < 64 \<Longrightarrow> init_bishop_magic ! n =
     \<lparr>mask_bb = sliding_attack BISHOP (int n) 0 AND NOT (edges (int n)), magic = BishopMultipliers ! n\<rparr>"
  by (simp add: init_bishop_magic_def length_multipliers all_squares_def)

lemma rook_attack_a1: "sliding_attack ROOK 0 0 = 0x01010101010101FE"
  by (simp add: eval_simps)

lemma edges_a1: "edges 0 = 0xFF80808080808080"
  by (simp add: edges_def Rank1BB_def Rank8BB_def FileABB_def FileHBB_def rank_bb_def file_bb_def
        rank_of_def file_of_def)

section \<open>Facts about the builder\<close>

lemma fill_row_list:
  "fill_row asserts pt bits m s board occured row =
     fill_list asserts pt bits m s (carry_rippler (mask_bb m) board) occured row"
proof (induction asserts pt bits m s board occured row rule: fill_row.induct)
  case (1 asserts pt bits m s board occured row)
  define idx where "idx = Magic_index bits m board"
  define board' where "board' = (board - mask_bb m) AND mask_bb m"
  show ?case
  proof (cases "(asserts \<and> \<not> idx < 2 ^ bits) \<or> (asserts \<and> occured idx)")
    case True
    then show ?thesis
      by (subst fill_row.simps, subst carry_rippler.simps) (auto simp: idx_def Let_def)
  next
    case False
    show ?thesis
    proof (cases "board' = 0")
      case True
      with False show ?thesis
        by (subst fill_row.simps, subst carry_rippler.simps) (auto simp: idx_def board'_def Let_def)
    next
      case nz: False
      have IH: "fill_row asserts pt bits m s board' (occured(idx := True)) (row(idx := sliding_attack pt s board)) =
            fill_list asserts pt bits m s (carry_rippler (mask_bb m) board')
              (occured(idx := True)) (row(idx := sliding_attack pt s board))"
      proof -
        have A: "\<not> (asserts \<and> \<not> idx < 2 ^ bits)" and B: "\<not> (asserts \<and> occured idx)"
          using False by blast+
        show ?thesis by (rule "1.IH" [OF idx_def A B refl refl board'_def nz])
      qed
      have c: "carry_rippler (mask_bb m) board = board # carry_rippler (mask_bb m) board'"
        using nz by (subst carry_rippler.simps) (simp add: board'_def Let_def)
      have f: "fill_row asserts pt bits m s board occured row =
               fill_row asserts pt bits m s board' (occured(idx := True)) (row(idx := sliding_attack pt s board))"
        using False nz by (subst fill_row.simps) (auto simp: idx_def board'_def Let_def)
      show ?thesis unfolding f IH c using False by (auto simp: idx_def Let_def)
    qed
  qed
qed


lemma fill_list_checked_Inr:
  "fill_list True pt bits m s bs occured row = Inr (occured', row') \<Longrightarrow>
     distinct (map (Magic_index bits m) bs) \<and>
     (\<forall>b\<in>set bs. Magic_index bits m b < 2 ^ bits \<and> \<not> occured (Magic_index bits m b)) \<and>
     (\<forall>b\<in>set bs. row' (Magic_index bits m b) = sliding_attack pt s b) \<and>
     (\<forall>j. j \<notin> Magic_index bits m ` set bs \<longrightarrow> row' j = row j)"
proof (induction bs arbitrary: occured row)
  case Nil
  then show ?case by simp
next
  case (Cons b bs)
  define idx where "idx = Magic_index bits m b"
  have ok: "idx < 2 ^ bits" "\<not> occured idx"
    using Cons.prems by (auto simp: idx_def Let_def split: if_splits)
  have rec: "fill_list True pt bits m s bs (occured(idx := True)) (row(idx := sliding_attack pt s b))
             = Inr (occured', row')"
    using Cons.prems ok by (simp add: idx_def Let_def)
  note IH = Cons.IH [OF rec]
  have d: "distinct (map (Magic_index bits m) bs)" using IH by blast
  have no: "\<forall>b'\<in>set bs. Magic_index bits m b' < 2 ^ bits \<and> Magic_index bits m b' \<noteq> idx \<and>
              \<not> occured (Magic_index bits m b')"
    using IH by (auto split: if_splits)
  have vals: "\<forall>b'\<in>set bs. row' (Magic_index bits m b') = sliding_attack pt s b'"
    using IH by blast
  have frame: "\<forall>j. j \<notin> Magic_index bits m ` set bs \<longrightarrow>
                 row' j = (row(idx := sliding_attack pt s b)) j"
    using IH by blast
  have notin: "idx \<notin> Magic_index bits m ` set bs" using no by auto
  have here: "row' idx = sliding_attack pt s b" using frame notin by simp
  show ?case
    using d no vals frame notin here ok by (auto simp: idx_def [symmetric])
qed

lemma fill_list_checked_ok:
  "distinct (map (Magic_index bits m) bs) \<Longrightarrow>
   (\<forall>b\<in>set bs. Magic_index bits m b < 2 ^ bits \<and> \<not> occured (Magic_index bits m b)) \<Longrightarrow>
   \<exists>occured' row'. fill_list True pt bits m s bs occured row = Inr (occured', row')"
proof (induction bs arbitrary: occured row)
  case Nil
  then show ?case by simp
next
  case (Cons b bs)
  define idx where "idx = Magic_index bits m b"
  have ni: "idx \<notin> Magic_index bits m ` set bs"
    using Cons.prems(1) by (simp add: idx_def)
  then have ne: "\<forall>b'\<in>set bs. Magic_index bits m b' \<noteq> idx" by blast
  have "\<forall>b'\<in>set bs. Magic_index bits m b' < 2 ^ bits \<and>
          \<not> (occured(idx := True)) (Magic_index bits m b')"
    using Cons.prems(2) ne by simp
  then have "\<exists>occured' row'. fill_list True pt bits m s bs (occured(idx := True))
        (row(idx := sliding_attack pt s b)) = Inr (occured', row')"
    using Cons.IH Cons.prems(1) by simp
  then show ?case using Cons.prems(2) by (simp add: idx_def Let_def)
qed

lemma fill_list_checked_fail:
  "\<not> distinct (map (Magic_index bits m) bs) \<Longrightarrow>
     fill_list True pt bits m s bs occured row = Inl AssertionFailed"
proof (cases "fill_list True pt bits m s bs occured row")
  case (Inl e)
  assume "\<not> distinct (map (Magic_index bits m) bs)"
  show ?thesis using Inl by (cases e) simp
next
  case (Inr p)
  assume nd: "\<not> distinct (map (Magic_index bits m) bs)"
  obtain occured' row' where "p = (occured', row')" by (cases p)
  then show ?thesis using fill_list_checked_Inr [of pt bits m s bs occured row occured' row'] Inr nd
    by simp
qed

lemma fill_list_unchecked_same:
  "fill_list True pt bits m s bs occured row = Inr r \<Longrightarrow>
     fill_list False pt bits m s bs occured row = Inr r"
  by (induction bs arbitrary: occured row) (auto simp: Let_def split: if_splits)

lemma fill_list_unchecked:
  "\<exists>occured'. fill_list False pt bits m s bs occured row =
     Inr (occured', \<lambda>j. if \<exists>b\<in>set bs. Magic_index bits m b = j
                         then sliding_attack pt s (last (filter (\<lambda>b. Magic_index bits m b = j) bs))
                         else row j)"
proof (induction bs arbitrary: occured row)
  case Nil
  then show ?case by simp
next
  case (Cons b bs)
  define idx where "idx = Magic_index bits m b"
  obtain occured' where rec:
    "fill_list False pt bits m s bs (occured(idx := True)) (row(idx := sliding_attack pt s b)) =
       Inr (occured', \<lambda>j. if \<exists>b\<in>set bs. Magic_index bits m b = j
                         then sliding_attack pt s (last (filter (\<lambda>b. Magic_index bits m b = j) bs))
                         else (row(idx := sliding_attack pt s b)) j)"
    using Cons.IH by blast
  have eq: "(\<lambda>j. if \<exists>b\<in>set bs. Magic_index bits m b = j
                  then sliding_attack pt s (last (filter (\<lambda>b. Magic_index bits m b = j) bs))
                  else (row(idx := sliding_attack pt s b)) j) =
            (\<lambda>j. if \<exists>b'\<in>set (b # bs). Magic_index bits m b' = j
                  then sliding_attack pt s (last (filter (\<lambda>b. Magic_index bits m b = j) (b # bs)))
                  else row j)"
  proof (rule ext)
    fix j
    show "(if \<exists>b\<in>set bs. Magic_index bits m b = j
           then sliding_attack pt s (last (filter (\<lambda>b. Magic_index bits m b = j) bs))
           else (row(idx := sliding_attack pt s b)) j) =
          (if \<exists>b'\<in>set (b # bs). Magic_index bits m b' = j
           then sliding_attack pt s (last (filter (\<lambda>b. Magic_index bits m b = j) (b # bs)))
           else row j)"
    proof (cases "\<exists>b\<in>set bs. Magic_index bits m b = j")
      case True
      then have "filter (\<lambda>b. Magic_index bits m b = j) bs \<noteq> []"
        by (auto simp: filter_empty_conv)
      then show ?thesis using True by auto
    next
      case False
      then have "filter (\<lambda>b. Magic_index bits m b = j) bs = []"
        by (auto simp: filter_empty_conv)
      then show ?thesis using False by (auto simp: idx_def)
    qed
  qed
  show ?case using rec unfolding eq by (auto simp: idx_def Let_def)
qed

section \<open>The occupancy outside the mask does not matter\<close>

lemma is_ok_nat: "is_ok t \<Longrightarrow> nat t < 64"
  by (auto simp: is_ok_def)

lemma square_bb_nonzero: "is_ok t \<Longrightarrow> square_bb t \<noteq> 0"
proof -
  assume "is_ok t"
  then have "bit (square_bb t) (nat t)" by (simp add: bit_square_bb is_ok_nat)
  then show ?thesis by auto
qed

lemma safe_destination_nonzero_iff:
  "safe_destination s step \<noteq> 0 \<longleftrightarrow> is_ok (s + step) \<and> distance s (s + step) \<le> 2"
  using square_bb_nonzero [of "s + step"] by (auto simp: safe_destination_def Let_def)

lemma ray_squares_step:
  "safe_destination s (dir_val d) \<noteq> 0 \<Longrightarrow> ray_squares d s = s # ray_squares d (s + dir_val d)"
  by (subst ray_squares.simps) simp

lemma ray_squares_stop:
  "safe_destination s (dir_val d) = 0 \<Longrightarrow> ray_squares d s = []"
  by (subst ray_squares.simps) simp

lemma ray_squares_ok: "t \<in> set (ray_squares d s) \<Longrightarrow> is_ok s \<Longrightarrow> is_ok t"
proof (induction d s rule: ray_squares.induct)
  case (1 d s)
  show ?case
  proof (cases "safe_destination s (dir_val d) \<noteq> 0")
    case True
    then have "is_ok (s + dir_val d)" by (rule safe_destination_nonzero_ok)
    then show ?thesis using 1 True by (auto simp: ray_squares_step)
  next
    case False
    then show ?thesis using "1.prems" by (simp add: ray_squares_stop)
  qed
qed

lemma ray_walk_cong:
  "(\<forall>t\<in>set (ray_squares d s). (occupied AND square_bb t = 0) = (occupied' AND square_bb t = 0)) \<Longrightarrow>
     ray_walk d occupied s attacks = ray_walk d occupied' s attacks"
proof (induction d occupied s attacks rule: ray_walk.induct)
  case (1 d occupied s attacks)
  show ?case
  proof (cases "safe_destination s (dir_val d) \<noteq> 0")
    case safe: True
    have rs: "ray_squares d s = s # ray_squares d (s + dir_val d)"
      using safe by (rule ray_squares_step)
    have here: "(occupied AND square_bb s = 0) = (occupied' AND square_bb s = 0)"
      using "1.prems" rs by simp
    show ?thesis
    proof (cases "occupied AND square_bb s = 0")
      case True
      have "ray_walk d occupied (s + dir_val d) (attacks OR square_bb (s + dir_val d)) =
            ray_walk d occupied' (s + dir_val d) (attacks OR square_bb (s + dir_val d))"
        using "1.IH" safe True "1.prems" rs by simp
      then show ?thesis using safe True here by (simp add: ray_walk_step)
    next
      case False
      then show ?thesis using here by (simp add: ray_walk_stop)
    qed
  next
    case False
    then show ?thesis by (simp add: ray_walk_stop)
  qed
qed

lemma ray_walk_mono: "bit attacks n \<Longrightarrow> bit (ray_walk d occupied s attacks) n"
proof (induction d occupied s attacks rule: ray_walk.induct)
  case (1 d occupied s attacks)
  show ?case
  proof (cases "safe_destination s (dir_val d) \<noteq> 0 \<and> occupied AND square_bb s = 0")
    case True
    then show ?thesis using 1 by (simp add: ray_walk_step bit_or_iff)
  next
    case False
    then show ?thesis using "1.prems" by (simp add: ray_walk_stop)
  qed
qed

lemma ray_walk_empty_reaches:
  "t \<in> set (ray_squares d s) \<Longrightarrow> t \<noteq> s \<Longrightarrow> bit (ray_walk d 0 s attacks) (nat t)"
proof (induction d s arbitrary: attacks rule: ray_squares.induct)
  case (1 d s)
  show ?case
  proof (cases "safe_destination s (dir_val d) \<noteq> 0")
    case True
    then have ok: "is_ok (s + dir_val d)" by (rule safe_destination_nonzero_ok)
    have mem: "t \<in> set (ray_squares d (s + dir_val d))"
      using "1.prems" True by (simp add: ray_squares_step)
    have w: "ray_walk d 0 s attacks =
             ray_walk d 0 (s + dir_val d) (attacks OR square_bb (s + dir_val d))"
      using True by (simp add: ray_walk_step)
    show ?thesis
    proof (cases "t = s + dir_val d")
      case eq: True
      have "bit (attacks OR square_bb (s + dir_val d)) (nat t)"
        using is_ok_nat [OF ok] eq by (simp add: bit_or_iff bit_square_bb)
      then show ?thesis unfolding w by (rule ray_walk_mono)
    next
      case False
      then show ?thesis unfolding w using "1.IH" [OF True mem] by simp
    qed
  next
    case False
    then show ?thesis using "1.prems" by (simp add: ray_squares_stop)
  qed
qed

lemma foldl_ray_walk_mono:
  "bit a n \<Longrightarrow> bit (foldl (\<lambda>attacks d. ray_walk d occupied sq attacks) a ds) n"
  by (induction ds arbitrary: a) (simp_all add: ray_walk_mono)

lemma foldl_ray_walk_reaches:
  "d \<in> set ds \<Longrightarrow> t \<in> set (ray_squares d sq) \<Longrightarrow> t \<noteq> sq \<Longrightarrow>
     bit (foldl (\<lambda>attacks d. ray_walk d 0 sq attacks) a ds) (nat t)"
proof (induction ds arbitrary: a)
  case Nil
  then show ?case by simp
next
  case (Cons d' ds)
  show ?case
  proof (cases "d = d'")
    case True
    have "bit (ray_walk d' 0 sq a) (nat t)"
      using Cons.prems True by (simp add: ray_walk_empty_reaches)
    then show ?thesis by (simp add: foldl_ray_walk_mono)
  next
    case False
    then show ?thesis using Cons by simp
  qed
qed

lemma dir_val_coords: "dir_val d = 8 * dir_rank d + dir_file d"
  by (cases d) simp_all

lemma dir_file_range: "dir_file d = - 1 \<or> dir_file d = 0 \<or> dir_file d = 1"
  by (cases d) simp_all

lemma dir_rank_range: "dir_rank d = - 1 \<or> dir_rank d = 0 \<or> dir_rank d = 1"
  by (cases d) simp_all

lemma step_coords:
  assumes safe: "safe_destination s (dir_val d) \<noteq> 0"
  shows "(s + dir_val d) mod 8 = s mod 8 + dir_file d \<and> (s + dir_val d) div 8 = s div 8 + dir_rank d"
proof -
  define f where "f = s mod 8"
  define r where "r = s div 8"
  have f: "0 \<le> f" "f < 8" by (simp_all add: f_def)
  have s: "s = 8 * r + f" by (simp add: f_def r_def)
  have t: "s + dir_val d = 8 * (r + dir_rank d) + (f + dir_file d)"
    by (simp add: s dir_val_coords algebra_simps)
  have m: "(s + dir_val d) mod 8 = (f + dir_file d) mod 8"
    unfolding t by (simp only: mod_mult_self4)
  have q: "(s + dir_val d) div 8 = (r + dir_rank d) + (f + dir_file d) div 8"
    unfolding t by (simp only: div_mult_self4)
  have "distance s (s + dir_val d) \<le> 2"
    using safe by (simp add: safe_destination_nonzero_iff)
  then have near: "\<bar>f - (f + dir_file d) mod 8\<bar> \<le> 2"
    by (simp add: distance_def file_of_def m f_def [symmetric])
  have inside: "0 \<le> f + dir_file d \<and> f + dir_file d < 8"
  proof (rule ccontr)
    assume "\<not> (0 \<le> f + dir_file d \<and> f + dir_file d < 8)"
    then have "f + dir_file d = - 1 \<or> f + dir_file d = 8"
      using f dir_file_range [of d] by auto
    then show False
    proof
      assume e: "f + dir_file d = - 1"
      then have "f = 0" using f dir_file_range [of d] by auto
      then show False using near e by simp
    next
      assume e: "f + dir_file d = 8"
      then have "f = 7" using f dir_file_range [of d] by auto
      then show False using near e by simp
    qed
  qed
  then have "(f + dir_file d) mod 8 = f + dir_file d" "(f + dir_file d) div 8 = 0"
    by simp_all
  then have "(s + dir_val d) mod 8 = f + dir_file d \<and> (s + dir_val d) div 8 = r + dir_rank d"
    using m q by (simp only: add_0_right simp_thms)
  then show ?thesis unfolding f_def r_def .
qed


lemma ray_squares_coords:
  "t \<in> set (ray_squares d s) \<Longrightarrow>
     \<exists>k::int. 0 \<le> k \<and> (t \<noteq> s \<longrightarrow> 1 \<le> k) \<and>
       t mod 8 = s mod 8 + k * dir_file d \<and> t div 8 = s div 8 + k * dir_rank d \<and>
       safe_destination t (dir_val d) \<noteq> 0"
proof (induction d s rule: ray_squares.induct)
  case (1 d s)
  show ?case
  proof (cases "safe_destination s (dir_val d) \<noteq> 0")
    case safe: True
    show ?thesis
    proof (cases "t = s")
      case True
      have "0 \<le> (0::int) \<and> (t \<noteq> s \<longrightarrow> 1 \<le> (0::int)) \<and>
            t mod 8 = s mod 8 + 0 * dir_file d \<and> t div 8 = s div 8 + 0 * dir_rank d \<and>
            safe_destination t (dir_val d) \<noteq> 0"
        using True safe by simp
      then show ?thesis by blast
    next
      case False
      then have "t \<in> set (ray_squares d (s + dir_val d))"
        using "1.prems" safe by (simp add: ray_squares_step)
      then obtain k :: int where k: "0 \<le> k"
        "t mod 8 = (s + dir_val d) mod 8 + k * dir_file d"
        "t div 8 = (s + dir_val d) div 8 + k * dir_rank d"
        "safe_destination t (dir_val d) \<noteq> 0"
        using "1.IH" [OF safe] by blast
      have "0 \<le> k + 1 \<and> (t \<noteq> s \<longrightarrow> 1 \<le> k + 1) \<and>
            t mod 8 = s mod 8 + (k + 1) * dir_file d \<and> t div 8 = s div 8 + (k + 1) * dir_rank d \<and>
            safe_destination t (dir_val d) \<noteq> 0"
        using k step_coords [OF safe] by (simp add: algebra_simps)
      then show ?thesis by blast
    qed
  next
    case False
    then show ?thesis using "1.prems" by (simp add: ray_squares_stop)
  qed
qed

lemma edge_free_coordinate:
  fixes c k dc tc :: int
  assumes "0 \<le> c" "c \<le> 7" "1 \<le> k" "dc = - 1 \<or> dc = 0 \<or> dc = 1"
    and "tc = c + k * dc" "0 \<le> tc + dc" "tc + dc \<le> 7"
  shows "\<not> ((tc = 0 \<or> tc = 7) \<and> tc \<noteq> c)"
  using assms by auto

lemma ray_interior_not_edge:
  assumes ok: "is_ok sq" and mem: "t \<in> set (ray_squares d sq)" and ne: "t \<noteq> sq"
  shows "\<not> is_edge_for sq (nat t)"
proof -
  obtain k :: int where k: "1 \<le> k"
    "t mod 8 = sq mod 8 + k * dir_file d" "t div 8 = sq div 8 + k * dir_rank d"
    and safe: "safe_destination t (dir_val d) \<noteq> 0"
    using ray_squares_coords [OF mem] ne by blast
  have okt: "is_ok t" using mem ok by (rule ray_squares_ok)
  have okn: "is_ok (t + dir_val d)" using safe by (rule safe_destination_nonzero_ok)
  note sc = step_coords [OF safe]
  have fr: "0 \<le> t mod 8 + dir_file d" "t mod 8 + dir_file d \<le> 7"
  proof -
    have "0 \<le> (t + dir_val d) mod 8" "(t + dir_val d) mod 8 < 8" by simp_all
    then show "0 \<le> t mod 8 + dir_file d" "t mod 8 + dir_file d \<le> 7" using sc by simp_all
  qed
  have rr: "0 \<le> t div 8 + dir_rank d" "t div 8 + dir_rank d \<le> 7"
  proof -
    have "0 \<le> (t + dir_val d) div 8" "(t + dir_val d) div 8 \<le> 7"
      using okn unfolding is_ok_def by linarith+
    then show "0 \<le> t div 8 + dir_rank d" "t div 8 + dir_rank d \<le> 7" using sc by simp_all
  qed
  have sqc: "0 \<le> sq mod 8" "sq mod 8 \<le> 7" "0 \<le> sq div 8" "sq div 8 \<le> 7"
    using ok unfolding is_ok_def by linarith+
  have F: "\<not> ((t mod 8 = 0 \<or> t mod 8 = 7) \<and> t mod 8 \<noteq> sq mod 8)"
    by (rule edge_free_coordinate [OF sqc(1,2) k(1) dir_file_range k(2) fr])
  have R: "\<not> ((t div 8 = 0 \<or> t div 8 = 7) \<and> t div 8 \<noteq> sq div 8)"
    by (rule edge_free_coordinate [OF sqc(3,4) k(1) dir_rank_range k(3) rr])
  have nn: "0 \<le> t" using okt by (simp add: is_ok_def)
  have c: "int (nat t div 8) = t div 8" "int (nat t mod 8) = t mod 8"
    using nn by (simp_all add: zdiv_int zmod_int)
  have c0: "nat t div 8 = 0 \<longleftrightarrow> t div 8 = 0" "nat t div 8 = 7 \<longleftrightarrow> t div 8 = 7"
    "nat t mod 8 = 0 \<longleftrightarrow> t mod 8 = 0" "nat t mod 8 = 7 \<longleftrightarrow> t mod 8 = 7"
    using c by linarith+
  show ?thesis
    unfolding is_edge_for_def c c0 using F R by blast
qed

lemma sliding_attack_relevant:
  assumes ok: "is_ok sq" and free: "\<not> bit occupied (nat sq)"
  shows "sliding_attack pt sq (occupied AND (sliding_attack pt sq 0 AND NOT (edges sq))) =
         sliding_attack pt sq occupied"
proof -
  define msk where "msk = sliding_attack pt sq 0 AND NOT (edges sq)"
  define ds where "ds = (if pt = ROOK then RookDirections else BishopDirections)"
  have walk: "ray_walk d (occupied AND msk) sq a = ray_walk d occupied sq a" if d: "d \<in> set ds" for d a
  proof (rule ray_walk_cong, rule ballI)
    fix t assume mem: "t \<in> set (ray_squares d sq)"
    have okt: "is_ok t" using mem ok by (rule ray_squares_ok)
    have z: "(x AND square_bb t = 0) = (\<not> bit x (nat t))" for x :: Bitboard
      using and_square_bb_iff [OF okt, of x] by blast
    show "((occupied AND msk) AND square_bb t = 0) = (occupied AND square_bb t = 0)"
    proof (cases "t = sq")
      case True
      show ?thesis unfolding z using True free by (simp add: bit_and_iff)
    next
      case False
      have "bit (sliding_attack pt sq 0) (nat t)"
        unfolding sliding_attack_def ds_def [symmetric]
        using d mem False by (rule foldl_ray_walk_reaches)
      moreover have "\<not> bit (edges sq) (nat t)"
        using ray_interior_not_edge [OF ok mem False] by (simp add: bit_edges [OF ok])
      ultimately have "bit msk (nat t)"
        using is_ok_nat [OF okt] by (simp add: msk_def bit_and_iff bit_not_iff)
      then show ?thesis unfolding z by (simp add: bit_and_iff)
    qed
  qed
  have "foldl (\<lambda>attacks d. ray_walk d (occupied AND msk) sq attacks) a xs =
        foldl (\<lambda>attacks d. ray_walk d occupied sq attacks) a xs" if "set xs \<subseteq> set ds" for a xs
    using that by (induction xs arbitrary: a) (simp_all add: walk)
  then have E: "foldl (\<lambda>attacks d. ray_walk d (occupied AND msk) sq attacks) 0 ds =
        foldl (\<lambda>attacks d. ray_walk d occupied sq attacks) 0 ds"
    by simp
  have "sliding_attack pt sq (occupied AND msk) = sliding_attack pt sq occupied"
    by (simp only: sliding_attack_def ds_def [symmetric] E)
  then show ?thesis unfolding msk_def .
qed

section \<open>Facts about init_table\<close>

lemma Magic_index_bound: "0 < bits \<Longrightarrow> bits \<le> 64 \<Longrightarrow> Magic_index bits m occupied < 2 ^ bits"
proof -
  assume b: "0 < bits" "bits \<le> 64"
  define w :: Bitboard where "w = (occupied AND mask_bb m) * magic m"
  have "unat (drop_bit (64 - bits) w) = drop_bit (64 - bits) (unat w)"
    by (rule unat_drop_bit_eq)
  also have "\<dots> = unat w div 2 ^ (64 - bits)"
    by (rule drop_bit_eq_div)
  also have "\<dots> < 2 ^ bits"
  proof -
    have "unat w < 2 ^ 64" using unsigned_less [of w] by simp
    also have "(2::nat) ^ 64 = 2 ^ (64 - bits) * 2 ^ bits"
      using b by (simp flip: power_add)
    finally show ?thesis by (simp add: less_mult_imp_div_less mult.commute)
  qed
  finally show ?thesis by (simp add: Magic_index_def w_def)
qed

lemma Magic_index_masked:
  "Magic_index bits m (occupied AND mask_bb m) = Magic_index bits m occupied"
  by (simp add: Magic_index_def and.assoc)

lemma fill_row_unchecked_same:
  "fill_row True pt bits m s board occured row = Inr r \<Longrightarrow>
     fill_row False pt bits m s board occured row = Inr r"
  by (simp add: fill_row_list fill_list_unchecked_same)

lemma row_after_fill_unchecked_same:
  "row_after_fill True pt bits m s = Inr row \<Longrightarrow> row_after_fill False pt bits m s = Inr row"
  unfolding row_after_fill_def
  by (auto split: sum.splits dest: fill_row_unchecked_same)

lemma row_after_fill_unchecked_total:
  "\<exists>row. row_after_fill False pt bits m s = Inr row"
  using fill_list_unchecked [of pt bits m s "carry_rippler (mask_bb m) 0" "\<lambda>_. False" "\<lambda>_. 0"]
  by (auto simp: row_after_fill_def fill_row_list)

lemma row_after_fill_checked_values:
  assumes "row_after_fill True pt bits m s = Inr row" and "sub AND mask_bb m = sub"
  shows "row (Magic_index bits m sub) = sliding_attack pt s sub"
proof -
  obtain occured' where f: "fill_list True pt bits m s (carry_rippler (mask_bb m) 0)
      (\<lambda>_. False) (\<lambda>_. 0) = Inr (occured', row)"
    using assms(1) by (auto simp: row_after_fill_def fill_row_list split: sum.splits)
  have "sub \<in> set (carry_rippler (mask_bb m) 0)"
    using carry_rippler_from [of 0 "mask_bb m"] assms(2) by simp
  then show ?thesis using fill_list_checked_Inr [OF f] by blast
qed

lemma row_after_fill_checked_collision:
  assumes "b1 AND mask_bb m = b1" "b2 AND mask_bb m = b2" "b1 \<noteq> b2"
    and "Magic_index bits m b1 = Magic_index bits m b2"
  shows "row_after_fill True pt bits m s = Inl AssertionFailed"
proof -
  have mem: "b1 \<in> set (carry_rippler (mask_bb m) 0)" "b2 \<in> set (carry_rippler (mask_bb m) 0)"
    using carry_rippler_from [of 0 "mask_bb m"] assms(1,2) by simp_all
  have "\<not> inj_on (Magic_index bits m) (set (carry_rippler (mask_bb m) 0))"
    using mem assms(3,4) by (auto simp: inj_on_def)
  then have "\<not> distinct (map (Magic_index bits m) (carry_rippler (mask_bb m) 0))"
    by (simp add: distinct_map)
  then show ?thesis
    by (simp add: row_after_fill_def fill_row_list fill_list_checked_fail)
qed

lemma row_after_fill_checked_ok:
  assumes "0 < bits" "bits \<le> 64"
    and "distinct (map (Magic_index bits m) (carry_rippler (mask_bb m) 0))"
  shows "\<not> isl (row_after_fill True pt bits m s)"
proof -
  have "\<forall>b\<in>set (carry_rippler (mask_bb m) 0). Magic_index bits m b < 2 ^ bits \<and> \<not> False"
    using Magic_index_bound [OF assms(1,2)] by simp
  then obtain occured' row' where
    "fill_list True pt bits m s (carry_rippler (mask_bb m) 0) (\<lambda>_. False) (\<lambda>_. 0) = Inr (occured', row')"
    using fill_list_checked_ok [OF assms(3), of "\<lambda>_. False" pt s "\<lambda>_. 0"] by blast
  then show ?thesis by (simp add: row_after_fill_def fill_row_list)
qed

lemma init_table_step_Inl: "foldl (init_table_step asserts pt bits magics) (Inl e) xs = Inl e"
  by (induction xs) (simp_all add: init_table_step_def)

lemma init_table_step_row:
  "table s = (\<lambda>_. 0) \<Longrightarrow>
     init_table_step asserts pt bits magics (Inr table) s =
       (case row_after_fill asserts pt bits (magics ! nat s) s of
          Inl e \<Rightarrow> Inl e | Inr row \<Rightarrow> Inr (table(s := row)))"
  by (simp add: init_table_step_def row_after_fill_def split: sum.splits prod.splits)

lemma init_table_fold:
  "distinct xs \<Longrightarrow> (\<forall>s\<in>set xs. table s = (\<lambda>_. 0)) \<Longrightarrow>
   foldl (init_table_step asserts pt bits magics) (Inr table) xs = Inr table' \<Longrightarrow>
     (\<forall>s\<in>set xs. row_after_fill asserts pt bits (magics ! nat s) s = Inr (table' s)) \<and>
     (\<forall>s. s \<notin> set xs \<longrightarrow> table' s = table s)"
proof (induction xs arbitrary: table)
  case Nil
  then show ?case by simp
next
  case (Cons x xs)
  have tx: "table x = (\<lambda>_. 0)" using Cons.prems(2) by simp
  show ?case
  proof (cases "row_after_fill asserts pt bits (magics ! nat x) x")
    case (Inl e)
    then have "foldl (init_table_step asserts pt bits magics) (Inr table) (x # xs) = Inl e"
      by (simp add: init_table_step_row [of table x, OF tx] init_table_step_Inl)
    then show ?thesis using Cons.prems(3) by simp
  next
    case (Inr row)
    have step: "init_table_step asserts pt bits magics (Inr table) x = Inr (table(x := row))"
      by (simp add: init_table_step_row [of table x, OF tx] Inr)
    have rest: "foldl (init_table_step asserts pt bits magics) (Inr (table(x := row))) xs = Inr table'"
      using Cons.prems(3) step by simp
    have z: "\<forall>s\<in>set xs. (table(x := row)) s = (\<lambda>_. 0)"
      using Cons.prems(1,2) by auto
    have d: "distinct xs" using Cons.prems(1) by simp
    note IH = Cons.IH [OF d z rest]
    have "table' x = row" using IH Cons.prems(1) by simp
    then show ?thesis using IH Inr by auto
  qed
qed

lemma distinct_all_squares: "distinct all_squares"
  by (simp add: all_squares_def distinct_map inj_on_def)

lemma set_all_squares: "s \<in> set all_squares \<longleftrightarrow> is_ok s"
  by (auto simp: all_squares_def is_ok_def image_iff intro: bexI [of _ "nat s"])

lemma init_table_rows:
  "init_table asserts pt bits magics = Inr table \<Longrightarrow> is_ok s \<Longrightarrow>
     row_after_fill asserts pt bits (magics ! nat s) s = Inr (table s)"
  unfolding init_table_def
  using init_table_fold [OF distinct_all_squares, of "\<lambda>_ _. 0" asserts pt bits magics table]
  by (simp add: set_all_squares)

lemma init_table_checked_fail:
  assumes "is_ok s" and "row_after_fill True pt bits (magics ! nat s) s = Inl e"
  shows "init_table True pt bits magics = Inl AssertionFailed"
proof (cases "init_table True pt bits magics")
  case (Inl e')
  then show ?thesis by (cases e') simp
next
  case (Inr table)
  then show ?thesis using init_table_rows [OF Inr assms(1)] assms(2) by simp
qed

lemma init_table_unchecked_total: "\<exists>table. init_table False pt bits magics = Inr table"
proof -
  have "\<exists>table'. foldl (init_table_step False pt bits magics) (Inr table) xs = Inr table'" for table xs
  proof (induction xs arbitrary: table)
    case Nil
    then show ?case by simp
  next
    case (Cons x xs)
    obtain occured' row' where
      "fill_row False pt bits (magics ! nat x) x 0 (\<lambda>_. False) (table x) = Inr (occured', row')"
      using fill_list_unchecked [of pt bits "magics ! nat x" x
          "carry_rippler (mask_bb (magics ! nat x)) 0" "\<lambda>_. False" "table x"]
      unfolding fill_row_list by blast
    then have "init_table_step False pt bits magics (Inr table) x = Inr (table(x := row'))"
      by (simp add: init_table_step_def)
    then show ?case using Cons.IH by simp
  qed
  then show ?thesis by (simp add: init_table_def)
qed

section \<open>The embedded constants at particular squares\<close>

lemmas edge_simps = edges_def Rank1BB_def Rank8BB_def FileABB_def FileHBB_def rank_bb_def file_bb_def
  rank_of_def file_of_def

lemma rook_magic_a1:
  "init_rook_magic ! 0 = \<lparr>mask_bb = 0x000101010101017E, magic = 0x0000002044010082\<rparr>"
proof -
  have "sliding_attack ROOK 0 0 AND NOT (edges 0) = 0x000101010101017E"
    by (simp only: rook_attack_a1 edges_a1) simp
  moreover have "RookMultipliers ! 0 = 0x0000002044010082"
    by (simp add: RookMultipliers_def)
  ultimately show ?thesis using rook_magic_nth [of 0] by simp
qed

lemma bishop_attack_b1: "sliding_attack BISHOP 1 0 = 0x0080402010080500"
  by (simp add: eval_simps)

lemma edges_b1: "edges 1 = 0xFF81818181818181"
  by (simp add: edge_simps)

lemma bishop_magic_b1:
  "init_bishop_magic ! Suc 0 = \<lparr>mask_bb = 0x0000402010080400, magic = 0x0000010101000880\<rparr>"
proof -
  have "sliding_attack BISHOP 1 0 AND NOT (edges 1) = 0x0000402010080400"
    by (simp only: bishop_attack_b1 edges_b1) simp
  moreover have "BishopMultipliers ! 1 = 0x0000010101000880"
    by (simp add: BishopMultipliers_def)
  ultimately show ?thesis using bishop_magic_nth [of 1] by simp
qed

lemma rook_a1_index: "Magic_index RookBits (init_rook_magic ! 0) 0 = 0"
  "Magic_index RookBits (init_rook_magic ! 0) 2 = 0"
  by (simp_all add: rook_magic_a1 Magic_index_def RookBits_def)

lemma bishop_b1_index: "Magic_index BishopBits (init_bishop_magic ! Suc 0) 0 = 0"
  "Magic_index BishopBits (init_bishop_magic ! Suc 0) 0x400 = 0"
  by (simp_all add: bishop_magic_b1 Magic_index_def BishopBits_def)

lemma rook_a1_row_fails:
  "row_after_fill True ROOK RookBits (init_rook_magic ! nat 0) 0 = Inl AssertionFailed"
  by (rule row_after_fill_checked_collision [of 0 _ 2])
     (simp_all add: rook_a1_index, simp_all add: rook_magic_a1)

lemma bishop_b1_row_fails:
  "row_after_fill True BISHOP BishopBits (init_bishop_magic ! nat 1) 1 = Inl AssertionFailed"
  by (rule row_after_fill_checked_collision [of 0 _ "0x400"])
     (simp_all add: bishop_b1_index, simp_all add: bishop_magic_b1)

lemma init_table_bishop_fails:
  "init_table True BISHOP BishopBits init_bishop_magic = Inl AssertionFailed"
  by (rule init_table_checked_fail [OF _ bishop_b1_row_fails]) (simp add: is_ok_def)

lemma init_table_rook_fails:
  "init_table True ROOK RookBits init_rook_magic = Inl AssertionFailed"
  by (rule init_table_checked_fail [OF _ rook_a1_row_fails]) (simp add: is_ok_def)

lemma bishop_attack_a1: "sliding_attack BISHOP 0 0 = 0x8040201008040200"
  by (simp add: eval_simps)

lemma bishop_magic_a1:
  "init_bishop_magic ! 0 = \<lparr>mask_bb = 0x0040201008040200, magic = 0x0000500102002008\<rparr>"
proof -
  have "sliding_attack BISHOP 0 0 AND NOT (edges 0) = 0x0040201008040200"
    by (simp only: bishop_attack_a1 edges_a1) simp
  moreover have "BishopMultipliers ! 0 = 0x0000500102002008"
    by (simp add: BishopMultipliers_def)
  ultimately show ?thesis using bishop_magic_nth [of 0] by simp
qed

lemma bishop_a1_indices:
  "map (Magic_index BishopBits (init_bishop_magic ! 0)) (carry_rippler (mask_bb (init_bishop_magic ! 0)) 0) =
   [0, 1, 128, 129, 16, 17, 144, 145, 64, 65, 192, 193, 80, 81, 208, 209, 8, 9, 136, 137, 24, 25, 152, 153, 72, 73, 200, 201, 88, 89, 216, 217, 4, 5, 132, 133, 20, 21, 148, 149, 68, 69, 196, 197, 84, 85, 212, 213, 12, 13, 140, 141, 28, 29, 156, 157, 76, 77, 204, 205, 92, 93, 220, 221]"
  by (simp add: bishop_magic_a1 carry_rippler.simps Let_def Magic_index_def BishopBits_def)

lemma bishop_a1_row_passes:
  "\<not> isl (row_after_fill True BISHOP BishopBits (init_bishop_magic ! nat 0) 0)"
  by (rule row_after_fill_checked_ok) (simp_all add: BishopBits_def [symmetric] bishop_a1_indices, simp_all add: BishopBits_def)

section \<open>Facts about Bitboards::init and the lookup\<close>

lemma same_tables_refl: "same_tables t t"
  by (simp add: same_tables_def)

lemma same_tables_trans: "same_tables t t' \<Longrightarrow> same_tables t' t'' \<Longrightarrow> same_tables t t''"
  by (simp add: same_tables_def)

lemma attacks_bb_same_tables:
  "same_tables t t' \<Longrightarrow> pt = BISHOP \<or> pt = ROOK \<Longrightarrow> attacks_bb t' pt s occupied = attacks_bb t pt s occupied"
  by (auto simp: same_tables_def attacks_bb_def)

lemma line_between_step_same: "same_tables t (line_between_step s1 pt t s2)"
  by (simp add: same_tables_def line_between_step_def Let_def)

lemma line_between_fold_same: "same_tables t (foldl (line_between_step s1 pt) t xs)"
proof (induction xs arbitrary: t)
  case Nil
  show ?case by (simp add: same_tables_refl)
next
  case (Cons x xs)
  show ?case
    using same_tables_trans [OF line_between_step_same Cons.IH] by simp
qed

lemma pseudo_fold_same:
  "same_tables t (foldl (\<lambda>t step. t\<lparr>PseudoAttacks := g t step\<rparr>) t xs)"
proof (induction xs arbitrary: t)
  case Nil
  show ?case by (simp add: same_tables_refl)
next
  case (Cons x xs)
  have "same_tables t (t\<lparr>PseudoAttacks := g t x\<rparr>)" by (simp add: same_tables_def)
  then show ?case using same_tables_trans [OF _ Cons.IH] by simp
qed

lemma square_step_same: "same_tables t (square_step t s1)"
proof -
  define t1 where "t1 = foldl (\<lambda>t step. t\<lparr>PseudoAttacks :=
                   upd2 (PseudoAttacks t) KING s1 (PseudoAttacks t KING s1 OR safe_destination s1 step)\<rparr>)
                 t KingSteps"
  define t2 where "t2 = foldl (\<lambda>t step. t\<lparr>PseudoAttacks :=
                   upd2 (PseudoAttacks t) KNIGHT s1 (PseudoAttacks t KNIGHT s1 OR safe_destination s1 step)\<rparr>)
                 t1 KnightSteps"
  define b where "b = attacks_bb t2 BISHOP s1 0"
  define t3 where "t3 = t2\<lparr>PseudoAttacks := upd2 (upd2 (PseudoAttacks t2) BISHOP s1 b) QUEEN s1 b\<rparr>"
  define r where "r = attacks_bb t3 ROOK s1 0"
  define t4 where "t4 = t3\<lparr>PseudoAttacks :=
                 upd2 (upd2 (PseudoAttacks t3) ROOK s1 r) QUEEN s1 (PseudoAttacks t3 QUEEN s1 OR r)\<rparr>"
  define t5 where "t5 = foldl (line_between_step s1 BISHOP) t4 all_squares"
  define t6 where "t6 = foldl (line_between_step s1 ROOK) t5 all_squares"
  have e: "square_step t s1 = t6"
    by (simp add: square_step_def Let_def t1_def t2_def b_def t3_def r_def t4_def t5_def t6_def)
  have "same_tables t t1" unfolding t1_def by (rule pseudo_fold_same)
  moreover have "same_tables t1 t2" unfolding t2_def by (rule pseudo_fold_same)
  moreover have "same_tables t2 t3" by (simp add: same_tables_def t3_def)
  moreover have "same_tables t3 t4" by (simp add: same_tables_def t4_def)
  moreover have "same_tables t4 t5" unfolding t5_def by (rule line_between_fold_same)
  moreover have "same_tables t5 t6" unfolding t6_def by (rule line_between_fold_same)
  ultimately show ?thesis unfolding e by (meson same_tables_trans)
qed

lemma square_fold_same: "same_tables t (foldl square_step t xs)"
proof (induction xs arbitrary: t)
  case Nil
  show ?case by (simp add: same_tables_refl)
next
  case (Cons x xs)
  show ?case using same_tables_trans [OF square_step_same Cons.IH] by simp
qed

lemma Bitboards_init_unchecked:
  "\<exists>bt rt t. init_table False BISHOP BishopBits init_bishop_magic = Inr bt \<and>
     init_table False ROOK RookBits init_rook_magic = Inr rt \<and>
     Bitboards_init False = Inr t \<and>
     same_tables \<lparr>BishopMagics = init_bishop_magic, RookMagics = init_rook_magic,
                  BishopAttackTable = bt, RookAttackTable = rt,
                  PseudoAttacks = (\<lambda>_ _. 0), LineBB = (\<lambda>_ _. 0), BetweenBB = (\<lambda>_ _. 0)\<rparr> t"
proof -
  obtain bt where bt: "init_table False BISHOP BishopBits init_bishop_magic = Inr bt"
    using init_table_unchecked_total by blast
  obtain rt where rt: "init_table False ROOK RookBits init_rook_magic = Inr rt"
    using init_table_unchecked_total by blast
  show ?thesis
    using bt rt by (simp add: Bitboards_init_def Let_def square_fold_same)
qed

lemma attacks_after_init_unchecked:
  assumes ok: "is_ok s" and pt: "pt = BISHOP \<or> pt = ROOK"
    and row: "row_after_fill False pt (sliding_bits pt) (sliding_magics pt ! nat s) s = Inr row"
  shows "attacks_after_init False pt s occupied =
         Inr (row (Magic_index (sliding_bits pt) (sliding_magics pt ! nat s) occupied))"
proof -
  obtain bt rt t where bt: "init_table False BISHOP BishopBits init_bishop_magic = Inr bt"
    and rt: "init_table False ROOK RookBits init_rook_magic = Inr rt"
    and t: "Bitboards_init False = Inr t"
    and same: "same_tables \<lparr>BishopMagics = init_bishop_magic, RookMagics = init_rook_magic,
                  BishopAttackTable = bt, RookAttackTable = rt,
                  PseudoAttacks = (\<lambda>_ _. 0), LineBB = (\<lambda>_ _. 0), BetweenBB = (\<lambda>_ _. 0)\<rparr> t"
    using Bitboards_init_unchecked by blast
  have b: "row_after_fill False BISHOP BishopBits (init_bishop_magic ! nat s) s = Inr (bt s)"
    using init_table_rows [OF bt ok] .
  have r: "row_after_fill False ROOK RookBits (init_rook_magic ! nat s) s = Inr (rt s)"
    using init_table_rows [OF rt ok] .
  from pt show ?thesis
  proof
    assume p: "pt = BISHOP"
    then have "row = bt s" using row b by (simp add: sliding_bits_def sliding_magics_def)
    then show ?thesis
      using same by (simp add: attacks_after_init_def t attacks_bb_def same_tables_def p
          sliding_bits_def sliding_magics_def)
  next
    assume p: "pt = ROOK"
    then have "row = rt s" using row r by (simp add: sliding_bits_def sliding_magics_def)
    then show ?thesis
      using same by (simp add: attacks_after_init_def t attacks_bb_def same_tables_def p
          sliding_bits_def sliding_magics_def)
  qed
qed

lemma sliding_mask:
  "is_ok s \<Longrightarrow> pt = BISHOP \<or> pt = ROOK \<Longrightarrow>
     mask_bb (sliding_magics pt ! nat s) = sliding_attack pt s 0 AND NOT (edges s)"
proof -
  assume ok: "is_ok s" and pt: "pt = BISHOP \<or> pt = ROOK"
  have n: "nat s < 64" "int (nat s) = s" using ok by (auto simp: is_ok_def)
  from pt show ?thesis
    using rook_magic_nth [OF n(1)] bishop_magic_nth [OF n(1)] n(2)
    by (auto simp: sliding_magics_def)
qed

lemma lookup_masked:
  assumes ok: "is_ok s" and pt: "pt = BISHOP \<or> pt = ROOK"
    and pass: "\<not> isl (row_after_fill True pt (sliding_bits pt) (sliding_magics pt ! nat s) s)"
  shows "attacks_after_init False pt s occupied =
         Inr (sliding_attack pt s (occupied AND mask_bb (sliding_magics pt ! nat s)))"
proof -
  define m where "m = sliding_magics pt ! nat s"
  obtain row where row: "row_after_fill True pt (sliding_bits pt) m s = Inr row"
    using pass unfolding m_def by (cases "row_after_fill True pt (sliding_bits pt) (sliding_magics pt ! nat s) s") auto
  have "row (Magic_index (sliding_bits pt) m (occupied AND mask_bb m)) =
        sliding_attack pt s (occupied AND mask_bb m)"
    by (rule row_after_fill_checked_values [OF row]) (simp add: and.assoc)
  then have v: "row (Magic_index (sliding_bits pt) m occupied) = sliding_attack pt s (occupied AND mask_bb m)"
    by (simp add: Magic_index_masked)
  have "attacks_after_init False pt s occupied = Inr (row (Magic_index (sliding_bits pt) m occupied))"
    unfolding m_def
    by (rule attacks_after_init_unchecked [OF ok pt])
       (rule row_after_fill_unchecked_same [OF row [unfolded m_def]])
  then show ?thesis using v by (simp add: m_def)
qed

section \<open>Facts about the line and between tables\<close>

lemma upd2_apply: "upd2 f a b v a' b' = (if a' = a \<and> b' = b then v else f a' b')"
  by (simp add: upd2_def)

lemma line_between_step_pseudo: "PseudoAttacks (line_between_step s1 pt t s2) = PseudoAttacks t"
  by (simp add: line_between_step_def Let_def)

lemma line_between_step_line:
  "LineBB (line_between_step s1 pt t s2) a b =
     (if a = s1 \<and> b = s2 \<and> PseudoAttacks t pt s1 AND square_bb s2 \<noteq> 0
      then line_val t pt s1 s2 else LineBB t a b)"
  by (simp add: line_between_step_def Let_def upd2_apply line_val_def)

lemma line_between_step_between:
  "BetweenBB (line_between_step s1 pt t s2) a b =
     (if a = s1 \<and> b = s2
      then (if PseudoAttacks t pt s1 AND square_bb s2 \<noteq> 0 then between_val t pt s1 s2
            else BetweenBB t a b) OR square_bb s2
      else BetweenBB t a b)"
  by (simp add: line_between_step_def Let_def upd2_apply between_val_def)

lemma line_val_same:
  "same_tables t t' \<Longrightarrow> pt = BISHOP \<or> pt = ROOK \<Longrightarrow> line_val t' pt = line_val t pt"
  by (intro ext) (simp add: line_val_def attacks_bb_same_tables)

lemma between_val_same:
  "same_tables t t' \<Longrightarrow> pt = BISHOP \<or> pt = ROOK \<Longrightarrow> between_val t' pt = between_val t pt"
  by (intro ext) (simp add: between_val_def attacks_bb_same_tables)

lemma line_between_fold:
  assumes pt: "pt = BISHOP \<or> pt = ROOK"
  shows "PseudoAttacks (foldl (line_between_step s1 pt) t xs) = PseudoAttacks t \<and>
     (\<forall>a b. LineBB (foldl (line_between_step s1 pt) t xs) a b =
        (if a = s1 \<and> b \<in> set xs \<and> PseudoAttacks t pt s1 AND square_bb b \<noteq> 0
         then line_val t pt s1 b else LineBB t a b)) \<and>
     (\<forall>a b. BetweenBB (foldl (line_between_step s1 pt) t xs) a b =
        (if a = s1 \<and> b \<in> set xs
         then (if PseudoAttacks t pt s1 AND square_bb b \<noteq> 0 then between_val t pt s1 b
               else BetweenBB t a b) OR square_bb b
         else BetweenBB t a b))"
proof (induction xs rule: rev_induct)
  case Nil
  show ?case by simp
next
  case (snoc x xs)
  define u where "u = foldl (line_between_step s1 pt) t xs"
  have same: "same_tables t u" unfolding u_def by (rule line_between_fold_same)
  have lv: "line_val u pt = line_val t pt" by (rule line_val_same [OF same pt])
  have bv: "between_val u pt = between_val t pt" by (rule between_val_same [OF same pt])
  have IH: "PseudoAttacks u = PseudoAttacks t"
    "\<And>a b. LineBB u a b =
        (if a = s1 \<and> b \<in> set xs \<and> PseudoAttacks t pt s1 AND square_bb b \<noteq> 0
         then line_val t pt s1 b else LineBB t a b)"
    "\<And>a b. BetweenBB u a b =
        (if a = s1 \<and> b \<in> set xs
         then (if PseudoAttacks t pt s1 AND square_bb b \<noteq> 0 then between_val t pt s1 b
               else BetweenBB t a b) OR square_bb b
         else BetweenBB t a b)"
    using snoc.IH unfolding u_def by blast+
  have f: "foldl (line_between_step s1 pt) t (xs @ [x]) = line_between_step s1 pt u x"
    by (simp add: u_def)
  show ?case
    unfolding f line_between_step_pseudo line_between_step_line line_between_step_between lv bv IH
    by (auto simp: or.assoc)
qed

lemma pseudo_fold_line:
  "LineBB (foldl (\<lambda>t step. t\<lparr>PseudoAttacks := g t step\<rparr>) t xs) = LineBB t \<and>
   BetweenBB (foldl (\<lambda>t step. t\<lparr>PseudoAttacks := g t step\<rparr>) t xs) = BetweenBB t"
  by (induction xs arbitrary: t) simp_all

lemma square_step_derived:
  "same_tables t (square_step t s1) \<and>
   (\<forall>a b. LineBB (square_step t s1) a b =
      (if a = s1 \<and> is_ok b then derived_line t s1 b (LineBB t s1 b) else LineBB t a b)) \<and>
   (\<forall>a b. BetweenBB (square_step t s1) a b =
      (if a = s1 \<and> is_ok b then derived_between t s1 b (BetweenBB t s1 b) else BetweenBB t a b))"
proof -
  define t1 where "t1 = foldl (\<lambda>t step. t\<lparr>PseudoAttacks :=
                   upd2 (PseudoAttacks t) KING s1 (PseudoAttacks t KING s1 OR safe_destination s1 step)\<rparr>)
                 t KingSteps"
  define t2 where "t2 = foldl (\<lambda>t step. t\<lparr>PseudoAttacks :=
                   upd2 (PseudoAttacks t) KNIGHT s1 (PseudoAttacks t KNIGHT s1 OR safe_destination s1 step)\<rparr>)
                 t1 KnightSteps"
  define b where "b = attacks_bb t2 BISHOP s1 0"
  define t3 where "t3 = t2\<lparr>PseudoAttacks := upd2 (upd2 (PseudoAttacks t2) BISHOP s1 b) QUEEN s1 b\<rparr>"
  define r where "r = attacks_bb t3 ROOK s1 0"
  define t4 where "t4 = t3\<lparr>PseudoAttacks :=
                 upd2 (upd2 (PseudoAttacks t3) ROOK s1 r) QUEEN s1 (PseudoAttacks t3 QUEEN s1 OR r)\<rparr>"
  define t5 where "t5 = foldl (line_between_step s1 BISHOP) t4 all_squares"
  define t6 where "t6 = foldl (line_between_step s1 ROOK) t5 all_squares"
  have e: "square_step t s1 = t6"
    by (simp add: square_step_def Let_def t1_def t2_def b_def t3_def r_def t4_def t5_def t6_def)
  have s1: "same_tables t t1" unfolding t1_def by (rule pseudo_fold_same)
  have s2: "same_tables t1 t2" unfolding t2_def by (rule pseudo_fold_same)
  have s3: "same_tables t2 t3" by (simp add: same_tables_def t3_def)
  have s4: "same_tables t3 t4" by (simp add: same_tables_def t4_def)
  have s02: "same_tables t t2" using s1 s2 by (rule same_tables_trans)
  have s03: "same_tables t t3" using s02 s3 by (rule same_tables_trans)
  have s04: "same_tables t t4" using s03 s4 by (rule same_tables_trans)
  have s45: "same_tables t4 t5" unfolding t5_def by (rule line_between_fold_same)
  have s05: "same_tables t t5" using s04 s45 by (rule same_tables_trans)
  have bv: "b = attacks_bb t BISHOP s1 0"
    unfolding b_def by (rule attacks_bb_same_tables [OF s02]) simp
  have rv: "r = attacks_bb t ROOK s1 0"
    unfolding r_def by (rule attacks_bb_same_tables [OF s03]) simp
  have l4: "LineBB t4 = LineBB t" "BetweenBB t4 = BetweenBB t"
    using pseudo_fold_line [of _ t1 KnightSteps] pseudo_fold_line [of _ t KingSteps]
    by (simp_all add: t4_def t3_def t2_def t1_def)
  have p4: "PseudoAttacks t4 BISHOP s1 = attacks_bb t BISHOP s1 0"
    "PseudoAttacks t4 ROOK s1 = attacks_bb t ROOK s1 0"
    by (simp_all add: t4_def t3_def upd2_apply bv [symmetric] rv [symmetric])
  note B = line_between_fold [of BISHOP s1 t4 all_squares, folded t5_def]
  note R = line_between_fold [of ROOK s1 t5 all_squares, folded t6_def]
  have p5: "PseudoAttacks t5 = PseudoAttacks t4" using B by simp
  have lB: "line_val t4 BISHOP = line_val t BISHOP" by (rule line_val_same [OF s04]) simp
  have lR: "line_val t5 ROOK = line_val t ROOK" by (rule line_val_same [OF s05]) simp
  have bB: "between_val t4 BISHOP = between_val t BISHOP" by (rule between_val_same [OF s04]) simp
  have bR: "between_val t5 ROOK = between_val t ROOK" by (rule between_val_same [OF s05]) simp
  have L: "LineBB t6 a c =
      (if a = s1 \<and> is_ok c then derived_line t s1 c (LineBB t s1 c) else LineBB t a c)" for a c
    using R B by (simp add: p5 p4 lB lR l4 derived_line_def set_all_squares)
  have Bt: "BetweenBB t6 a c =
      (if a = s1 \<and> is_ok c then derived_between t s1 c (BetweenBB t s1 c) else BetweenBB t a c)" for a c
    using R B by (simp add: p5 p4 bB bR l4 derived_between_def set_all_squares)
  show ?thesis unfolding e using L Bt square_step_same [of t s1, unfolded e] by blast
qed

lemma derived_same:
  "same_tables t t' \<Longrightarrow> derived_line t' = derived_line t \<and> derived_between t' = derived_between t"
  by (intro conjI ext)
     (simp_all add: derived_line_def derived_between_def attacks_bb_same_tables
        line_val_same between_val_same)

lemma square_fold_derived:
  "distinct xs \<Longrightarrow>
     (\<forall>a b. LineBB (foldl square_step t xs) a b =
        (if a \<in> set xs \<and> is_ok b then derived_line t a b (LineBB t a b) else LineBB t a b)) \<and>
     (\<forall>a b. BetweenBB (foldl square_step t xs) a b =
        (if a \<in> set xs \<and> is_ok b then derived_between t a b (BetweenBB t a b) else BetweenBB t a b))"
proof (induction xs arbitrary: t)
  case Nil
  show ?case by simp
next
  case (Cons x xs)
  define u where "u = square_step t x"
  note S = square_step_derived [of t x, folded u_def]
  have same: "same_tables t u" using S by blast
  have d: "derived_line u = derived_line t" "derived_between u = derived_between t"
    using derived_same [OF same] by blast+
  have dx: "distinct xs" "x \<notin> set xs" using Cons.prems by simp_all
  note IH = Cons.IH [OF dx(1), of u]
  have f: "foldl square_step t (x # xs) = foldl square_step u xs" by (simp add: u_def)
  show ?case
    unfolding f using IH S dx(2) by (auto simp: d)
qed

lemma derived_after_init:
  assumes t: "Bitboards_init False = Inr t" and ok: "is_ok s1" "is_ok s2"
  shows "LineBB t s1 s2 = derived_line t s1 s2 0" "BetweenBB t s1 s2 = derived_between t s1 s2 0"
proof -
  obtain bt rt t' where bt: "init_table False BISHOP BishopBits init_bishop_magic = Inr bt"
    and rt: "init_table False ROOK RookBits init_rook_magic = Inr rt"
    and t': "Bitboards_init False = Inr t'"
    using Bitboards_init_unchecked by blast
  define t0 where "t0 = \<lparr>BishopMagics = init_bishop_magic, RookMagics = init_rook_magic,
                  BishopAttackTable = bt, RookAttackTable = rt,
                  PseudoAttacks = (\<lambda>_ _. 0), LineBB = (\<lambda>_ _. 0), BetweenBB = (\<lambda>_ _. 0)\<rparr>"
  have e: "t = foldl square_step t0 all_squares"
    using t bt rt by (simp add: Bitboards_init_def Let_def t0_def)
  have same: "same_tables t0 t" unfolding e by (rule square_fold_same)
  note d = derived_same [OF same]
  note F = square_fold_derived [OF distinct_all_squares, of t0, folded e]
  have z: "LineBB t0 s1 s2 = 0" "BetweenBB t0 s1 s2 = 0" by (simp_all add: t0_def)
  show "LineBB t s1 s2 = derived_line t s1 s2 0" "BetweenBB t s1 s2 = derived_between t s1 s2 0"
    using F ok by (simp_all add: set_all_squares d z)
qed

lemma ray_walk_bits_coords:
  "bit (ray_walk d occupied s attacks) n \<Longrightarrow>
     bit attacks n \<or>
     (\<exists>k::int. 1 \<le> k \<and> int n mod 8 = s mod 8 + k * dir_file d \<and> int n div 8 = s div 8 + k * dir_rank d)"
proof (induction d occupied s attacks rule: ray_walk.induct)
  case (1 d occupied s attacks)
  show ?case
  proof (cases "safe_destination s (dir_val d) \<noteq> 0 \<and> occupied AND square_bb s = 0")
    case True
    then have safe: "safe_destination s (dir_val d) \<noteq> 0" by simp
    have ok: "is_ok (s + dir_val d)" using safe by (rule safe_destination_nonzero_ok)
    note sc = step_coords [OF safe]
    have "bit (ray_walk d occupied (s + dir_val d) (attacks OR square_bb (s + dir_val d))) n"
      using "1.prems" True by (simp add: ray_walk_step)
    then have "bit (attacks OR square_bb (s + dir_val d)) n \<or>
        (\<exists>k::int. 1 \<le> k \<and> int n mod 8 = (s + dir_val d) mod 8 + k * dir_file d \<and>
           int n div 8 = (s + dir_val d) div 8 + k * dir_rank d)"
      using "1.IH" True by blast
    then consider (old) "bit attacks n" | (here) "n = nat (s + dir_val d)"
      | (far) k :: int where "1 \<le> k" "int n mod 8 = (s + dir_val d) mod 8 + k * dir_file d"
          "int n div 8 = (s + dir_val d) div 8 + k * dir_rank d"
      by (auto simp: bit_or_iff bit_square_bb)
    then show ?thesis
    proof cases
      case old
      then show ?thesis by blast
    next
      case here
      then have "int n = s + dir_val d" using ok by (simp add: is_ok_def)
      then have "1 \<le> (1::int) \<and> int n mod 8 = s mod 8 + 1 * dir_file d \<and>
                 int n div 8 = s div 8 + 1 * dir_rank d"
        using sc by simp
      then show ?thesis by blast
    next
      case far
      then have "1 \<le> k + 1 \<and> int n mod 8 = s mod 8 + (k + 1) * dir_file d \<and>
                 int n div 8 = s div 8 + (k + 1) * dir_rank d"
        using sc by (simp add: algebra_simps)
      then show ?thesis by blast
    qed
  next
    case False
    have "ray_walk d occupied s attacks = attacks" using False by (rule ray_walk_stop)
    then show ?thesis using "1.prems" by simp
  qed
qed

lemma rook_attack_on_line:
  assumes "bit (sliding_attack ROOK s occupied) n"
  shows "int n mod 8 = s mod 8 \<or> int n div 8 = s div 8"
proof -
  have step: "bit (ray_walk d occupied s a) n \<Longrightarrow> d \<in> set RookDirections \<Longrightarrow>
      bit a n \<or> int n mod 8 = s mod 8 \<or> int n div 8 = s div 8" for d a
    using ray_walk_bits_coords [of d occupied s a n]
    by (auto simp: RookDirections_def)
  have "bit (foldl (\<lambda>attacks d. ray_walk d occupied s attacks) a ds) n \<Longrightarrow>
        set ds \<subseteq> set RookDirections \<Longrightarrow>
        bit a n \<or> int n mod 8 = s mod 8 \<or> int n div 8 = s div 8" for a ds
  proof (induction ds arbitrary: a)
    case Nil
    then show ?case by simp
  next
    case (Cons d ds)
    then have "bit (ray_walk d occupied s a) n \<or> int n mod 8 = s mod 8 \<or> int n div 8 = s div 8"
      by simp
    then show ?case using step [of d a] Cons.prems(2) by auto
  qed
  from this [of 0 RookDirections] assms show ?thesis
    by (simp add: sliding_attack_def)
qed

lemma row_after_fill_unchecked_value:
  assumes "row_after_fill False pt bits m s = Inr row"
  shows "row j = (if \<exists>b\<in>set (carry_rippler (mask_bb m) 0). Magic_index bits m b = j
                  then sliding_attack pt s
                         (last (filter (\<lambda>b. Magic_index bits m b = j) (carry_rippler (mask_bb m) 0)))
                  else 0)"
proof -
  obtain occured' where
    "fill_list False pt bits m s (carry_rippler (mask_bb m) 0) (\<lambda>_. False) (\<lambda>_. 0) =
       Inr (occured', \<lambda>j. if \<exists>b\<in>set (carry_rippler (mask_bb m) 0). Magic_index bits m b = j
                         then sliding_attack pt s
                           (last (filter (\<lambda>b. Magic_index bits m b = j) (carry_rippler (mask_bb m) 0)))
                         else 0)"
    using fill_list_unchecked [of pt bits m s "carry_rippler (mask_bb m) 0" "\<lambda>_. False" "\<lambda>_. 0"]
    by blast
  then show ?thesis using assms by (auto simp: row_after_fill_def fill_row_list)
qed

lemma attacks_after_init_value:
  assumes t: "Bitboards_init False = Inr t" and ok: "is_ok s" and pt: "pt = BISHOP \<or> pt = ROOK"
  shows "\<exists>b. attacks_bb t pt s occupied = sliding_attack pt s b \<and>
             attacks_bb t pt s occupied =
               sliding_attack pt s
                 (last (filter (\<lambda>b. Magic_index (sliding_bits pt) (sliding_magics pt ! nat s) b =
                                   Magic_index (sliding_bits pt) (sliding_magics pt ! nat s) occupied)
                          (carry_rippler (mask_bb (sliding_magics pt ! nat s)) 0)))"
proof -
  define m where "m = sliding_magics pt ! nat s"
  obtain row where row: "row_after_fill False pt (sliding_bits pt) m s = Inr row"
    using row_after_fill_unchecked_total by blast
  have a: "attacks_after_init False pt s occupied = Inr (row (Magic_index (sliding_bits pt) m occupied))"
    unfolding m_def by (rule attacks_after_init_unchecked [OF ok pt row [unfolded m_def]])
  have "occupied AND mask_bb m \<in> set (carry_rippler (mask_bb m) 0)"
    using carry_rippler_from [of 0 "mask_bb m"] by (simp add: and.assoc)
  then have ex: "\<exists>b\<in>set (carry_rippler (mask_bb m) 0).
      Magic_index (sliding_bits pt) m b = Magic_index (sliding_bits pt) m occupied"
    using Magic_index_masked by blast
  have "attacks_bb t pt s occupied = row (Magic_index (sliding_bits pt) m occupied)"
    using a by (simp add: attacks_after_init_def t)
  also have "\<dots> = sliding_attack pt s
      (last (filter (\<lambda>b. Magic_index (sliding_bits pt) m b = Magic_index (sliding_bits pt) m occupied)
               (carry_rippler (mask_bb m) 0)))"
    using row_after_fill_unchecked_value [OF row] ex by simp
  finally show ?thesis unfolding m_def by blast
qed

lemma rook_lookup_off_line:
  assumes t: "Bitboards_init False = Inr t" and ok: "is_ok s" "is_ok s2"
    and off: "s2 mod 8 \<noteq> s mod 8" "s2 div 8 \<noteq> s div 8"
  shows "attacks_bb t ROOK s occupied AND square_bb s2 = 0"
proof -
  obtain b where b: "attacks_bb t ROOK s occupied = sliding_attack ROOK s b"
    using attacks_after_init_value [OF t ok(1), of ROOK occupied] by blast
  have "\<not> bit (sliding_attack ROOK s b) (nat s2)"
    using rook_attack_on_line [of s b "nat s2"] off ok(2) by (auto simp: is_ok_def)
  then show ?thesis using and_square_bb_iff [OF ok(2), of "attacks_bb t ROOK s occupied"] b by simp
qed

section \<open>The tables at the pair \<open>SQ_A4\<close>, \<open>SQ_D1\<close>\<close>

lemma Bitboards_init_checked_fails: "Bitboards_init True = Inl AssertionFailed"
  by (simp add: Bitboards_init_def Let_def init_table_bishop_fails)

lemma bishop_attack_a4: "sliding_attack BISHOP 24 0 = 0x1008040200020408"
  by (simp add: eval_simps)

lemma bishop_attack_d1: "sliding_attack BISHOP 3 0 = 0x0000008041221400"
  by (simp add: eval_simps)

lemma edges_a4: "edges 24 = 0xFF808080808080FF"
  by (simp add: edge_simps)

lemma edges_d1: "edges 3 = 0xFF81818181818181"
  by (simp add: edge_simps)

lemma bishop_magic_a4:
  "init_bishop_magic ! 24 = \<lparr>mask_bb = 0x0008040200020400, magic = 0x00080E090062000F\<rparr>"
proof -
  have "sliding_attack BISHOP 24 0 AND NOT (edges 24) = 0x0008040200020400"
    by (simp only: bishop_attack_a4 edges_a4) simp
  moreover have "BishopMultipliers ! 24 = 0x00080E090062000F"
    by (simp add: BishopMultipliers_def)
  ultimately show ?thesis using bishop_magic_nth [of 24] by simp
qed

lemma bishop_magic_d1:
  "init_bishop_magic ! 3 = \<lparr>mask_bb = 0x0000000040221400, magic = 0x0000000001200404\<rparr>"
proof -
  have "sliding_attack BISHOP 3 0 AND NOT (edges 3) = 0x0000000040221400"
    by (simp only: bishop_attack_d1 edges_d1) simp
  moreover have "BishopMultipliers ! 3 = 0x0000000001200404"
    by (simp add: BishopMultipliers_def)
  ultimately show ?thesis using bishop_magic_nth [of 3] by simp
qed

lemma bishop_a4_last_hit:
  "last (filter (\<lambda>b. Magic_index BishopBits (init_bishop_magic ! 24) b = 0)
           (carry_rippler (mask_bb (init_bishop_magic ! 24)) 0)) = 0x0008000000000000"
  by (simp add: bishop_magic_a4 carry_rippler.simps Let_def Magic_index_def BishopBits_def)

lemma bishop_d1_last_hit:
  "last (filter (\<lambda>b. Magic_index BishopBits (init_bishop_magic ! 3) b = 0)
           (carry_rippler (mask_bb (init_bishop_magic ! 3)) 0)) = 0x0000000040221400"
  by (simp add: bishop_magic_d1 carry_rippler.simps Let_def Magic_index_def BishopBits_def)

lemma bishop_a4_d1_indices:
  "Magic_index BishopBits (init_bishop_magic ! 24) 0 = 0"
  "Magic_index BishopBits (init_bishop_magic ! 24) (square_bb 3) = 0"
  "Magic_index BishopBits (init_bishop_magic ! 3) 0 = 0"
  "Magic_index BishopBits (init_bishop_magic ! 3) (square_bb 24) = 0"
  by (simp_all add: bishop_magic_a4 bishop_magic_d1 Magic_index_def BishopBits_def square_bb_def)

lemma bishop_attack_a4_blocked: "sliding_attack BISHOP 24 0x0008000000000000 = 0x0008040200020408"
  by (simp add: eval_simps)

lemma bishop_attack_d1_blocked: "sliding_attack BISHOP 3 0x0000000040221400 = 0x1400"
  by (simp add: eval_simps)

lemma init_unchecked_a4_d1:
  assumes t: "Bitboards_init False = Inr t"
  shows "attacks_bb t BISHOP 24 0 = 0x0008040200020408"
    "attacks_bb t BISHOP 24 (square_bb 3) = 0x0008040200020408"
    "attacks_bb t BISHOP 3 0 = 0x1400"
    "attacks_bb t BISHOP 3 (square_bb 24) = 0x1400"
    "attacks_bb t ROOK 24 0 AND square_bb 3 = 0"
proof -
  have ok: "is_ok 24" "is_ok 3" by (simp_all add: is_ok_def)
  have v: "attacks_bb t BISHOP s occupied =
      sliding_attack BISHOP s
        (last (filter (\<lambda>b. Magic_index BishopBits (init_bishop_magic ! nat s) b =
                          Magic_index BishopBits (init_bishop_magic ! nat s) occupied)
                 (carry_rippler (mask_bb (init_bishop_magic ! nat s)) 0)))" if "is_ok s" for s occupied
    using attacks_after_init_value [OF t that, of BISHOP occupied]
    by (simp add: sliding_bits_def sliding_magics_def)
  show "attacks_bb t BISHOP 24 0 = 0x0008040200020408"
    using v [OF ok(1), of 0]
    by (simp add: bishop_a4_d1_indices bishop_a4_last_hit bishop_attack_a4_blocked)
  show "attacks_bb t BISHOP 24 (square_bb 3) = 0x0008040200020408"
    using v [OF ok(1), of "square_bb 3"]
    by (simp add: bishop_a4_d1_indices bishop_a4_last_hit bishop_attack_a4_blocked)
  show "attacks_bb t BISHOP 3 0 = 0x1400"
    using v [OF ok(2), of 0]
    by (simp add: bishop_a4_d1_indices bishop_d1_last_hit bishop_attack_d1_blocked)
  show "attacks_bb t BISHOP 3 (square_bb 24) = 0x1400"
    using v [OF ok(2), of "square_bb 24"]
    by (simp add: bishop_a4_d1_indices bishop_d1_last_hit bishop_attack_d1_blocked)
  show "attacks_bb t ROOK 24 0 AND square_bb 3 = 0"
    by (rule rook_lookup_off_line [OF t ok]) simp_all
qed

lemma between_contains_destination:
  assumes t: "Bitboards_init False = Inr t" and ok: "is_ok s1" "is_ok s2"
  shows "bit (BetweenBB t s1 s2) (nat s2)"
proof -
  have "bit (x OR square_bb s2) (nat s2)" for x :: Bitboard
    using is_ok_nat [OF ok(2)] by (simp add: bit_or_iff bit_square_bb)
  then show ?thesis
    unfolding derived_after_init(2) [OF t ok] derived_between_def by simp
qed

lemma lookup_excludes_origin:
  assumes t: "Bitboards_init False = Inr t" and ok: "is_ok s" and pt: "pt = BISHOP \<or> pt = ROOK"
  shows "attacks_bb t pt s occupied AND square_bb s = 0"
proof -
  obtain b where b: "attacks_bb t pt s occupied = sliding_attack pt s b"
    using attacks_after_init_value [OF t ok pt, of occupied] by blast
  have "\<not> bit (sliding_attack pt s b) (nat s)"
  proof
    assume "bit (sliding_attack pt s b) (nat s)"
    then have "bit (0 :: Bitboard) (nat s) \<or> int (nat s) \<noteq> s"
      unfolding sliding_attack_def by (rule foldl_ray_walk_bits)
    then show False using ok by (simp add: is_ok_def)
  qed
  then show ?thesis using and_square_bb_iff [OF ok, of "attacks_bb t pt s occupied"] b by simp
qed

lemma between_same_square:
  assumes t: "Bitboards_init False = Inr t" and ok: "is_ok s"
  shows "BetweenBB t s s = square_bb s"
  unfolding derived_after_init(2) [OF t ok ok] derived_between_def
  by (simp add: lookup_excludes_origin [OF t ok])

section \<open>The lookup on rows that satisfy the builder's assertions\<close>

text \<open>
  Where the pass of the builder for a square meets no failed assertion, the lookup is
  \<open>sliding_attack\<close> on the masked occupancy: equal to \<open>sliding_attack\<close> on every occupancy
  without the origin square, and different from it where the origin is occupied (there
  \<open>sliding_attack\<close> is empty). The bishop row of \<open>SQ_A1\<close> is such a row.
\<close>

lemma lookup_on_passing_row:
  assumes "is_ok s" and "pt = BISHOP \<or> pt = ROOK"
    and "\<not> isl (row_after_fill True pt (sliding_bits pt) (sliding_magics pt ! nat s) s)"
  shows "(\<forall>occupied. \<not> bit occupied (nat s) \<longrightarrow>
            attacks_after_init False pt s occupied = Inr (sliding_attack pt s occupied)) \<and>
         (\<forall>sub. sub AND mask_bb (sliding_magics pt ! nat s) = sub \<longrightarrow>
            projr (row_after_fill True pt (sliding_bits pt) (sliding_magics pt ! nat s) s)
              (Magic_index (sliding_bits pt) (sliding_magics pt ! nat s) sub) =
            sliding_attack pt s sub)"
proof (intro conjI allI impI)
  fix occupied :: Bitboard
  assume free: "\<not> bit occupied (nat s)"
  have "attacks_after_init False pt s occupied =
        Inr (sliding_attack pt s (occupied AND mask_bb (sliding_magics pt ! nat s)))"
    by (rule lookup_masked [OF assms])
  also have "mask_bb (sliding_magics pt ! nat s) = sliding_attack pt s 0 AND NOT (edges s)"
    by (rule sliding_mask [OF assms(1,2)])
  also have "sliding_attack pt s (occupied AND (sliding_attack pt s 0 AND NOT (edges s))) =
             sliding_attack pt s occupied"
    by (rule sliding_attack_relevant [OF assms(1) free])
  finally show "attacks_after_init False pt s occupied = Inr (sliding_attack pt s occupied)" .
next
  fix sub :: Bitboard
  assume sub: "sub AND mask_bb (sliding_magics pt ! nat s) = sub"
  obtain row where row: "row_after_fill True pt (sliding_bits pt) (sliding_magics pt ! nat s) s = Inr row"
    using assms(3)
    by (cases "row_after_fill True pt (sliding_bits pt) (sliding_magics pt ! nat s) s") auto
  show "projr (row_after_fill True pt (sliding_bits pt) (sliding_magics pt ! nat s) s)
          (Magic_index (sliding_bits pt) (sliding_magics pt ! nat s) sub) =
        sliding_attack pt s sub"
    using row_after_fill_checked_values [OF row sub] by (simp add: row)
qed

lemma lookup_on_passing_row_a1:
  "is_ok 0 \<and>
   \<not> isl (row_after_fill True BISHOP (sliding_bits BISHOP) (sliding_magics BISHOP ! nat 0) 0) \<and>
   \<not> bit (0x0000000008000200 :: Bitboard) (nat 0) \<and>
   attacks_after_init False BISHOP 0 0x0000000008000200 = Inr (sliding_attack BISHOP 0 0x0000000008000200) \<and>
   sliding_attack BISHOP 0 0x0000000008000200 = 0x200"
proof -
  have ok: "is_ok 0" by (simp add: is_ok_def)
  have pass: "\<not> isl (row_after_fill True BISHOP (sliding_bits BISHOP) (sliding_magics BISHOP ! nat 0) 0)"
    using bishop_a1_row_passes by (simp add: sliding_bits_def sliding_magics_def)
  have free: "\<not> bit (0x0000000008000200 :: Bitboard) (nat 0)" by simp
  have "attacks_after_init False BISHOP 0 0x0000000008000200 =
        Inr (sliding_attack BISHOP 0 0x0000000008000200)"
    using lookup_on_passing_row [OF ok _ pass] free by blast
  moreover have "sliding_attack BISHOP 0 0x0000000008000200 = 0x200"
    by (simp add: eval_simps)
  ultimately show ?thesis using ok pass free by blast
qed

lemma lookup_occupied_origin_a1:
  "attacks_after_init False BISHOP 0 1 = Inr 0x8040201008040200 \<and> sliding_attack BISHOP 0 1 = 0"
proof -
  have ok: "is_ok 0" by (simp add: is_ok_def)
  have pass: "\<not> isl (row_after_fill True BISHOP (sliding_bits BISHOP) (sliding_magics BISHOP ! nat 0) 0)"
    using bishop_a1_row_passes by (simp add: sliding_bits_def sliding_magics_def)
  have "attacks_after_init False BISHOP 0 1 =
        Inr (sliding_attack BISHOP 0 (1 AND mask_bb (sliding_magics BISHOP ! nat 0)))"
    by (rule lookup_masked [OF ok _ pass]) simp
  also have "1 AND mask_bb (sliding_magics BISHOP ! nat 0) = 0"
    by (simp add: sliding_magics_def bishop_magic_a1)
  finally have a: "attacks_after_init False BISHOP 0 1 = Inr 0x8040201008040200"
    by (simp only: bishop_attack_a1)
  have b: "sliding_attack BISHOP 0 1 = 0"
    by (rule sliding_attack_blocked_origin) (simp add: square_bb_def)
  show ?thesis using a b by blast
qed

section \<open>The claims\<close>

text \<open>
  Claim C4. For every mask, the sequence \<open>0, next 0, next (next 0), ...\<close> with
  \<open>next b = (b - mask) & mask\<close>, taken until it returns to \<open>0\<close>, has no repeats, visits
  exactly the subsets of the mask, and so has \<open>2 ^ popcount mask\<close> members; it starts at
  the empty subset and the step after its last member is the empty subset again. The
  enumeration is a total function: the loop terminates. The loop of the table builder
  is its body applied along this enumeration for the mask of the square's descriptor.
\<close>

theorem carry_rippler_enumerates:
  "distinct (carry_rippler msk 0) \<and>
   set (carry_rippler msk 0) = {c. c AND msk = c} \<and>
   length (carry_rippler msk 0) = 2 ^ popcount msk \<and>
   hd (carry_rippler msk 0) = 0 \<and>
   ((last (carry_rippler msk 0) - msk) AND msk = 0) \<and>
   fill_row asserts pt bits m s 0 occured row =
     fill_list asserts pt bits m s (carry_rippler (mask_bb m) 0) occured row"
proof -
  have a: "sorted_wrt (<) (carry_rippler msk 0)"
    and b: "set (carry_rippler msk 0) = {c. c AND msk = c}"
    using carry_rippler_from [of 0 msk] by auto
  have d: "distinct (carry_rippler msk 0)"
    using a strict_sorted_iff by blast
  have "length (carry_rippler msk 0) = card (set (carry_rippler msk 0))"
    using d by (simp add: distinct_card)
  then have l: "length (carry_rippler msk 0) = 2 ^ popcount msk"
    by (simp add: b card_subsets)
  have h: "hd (carry_rippler msk 0) = 0"
    by (simp add: carry_rippler.simps [of msk 0] Let_def)
  show ?thesis using d b l h carry_rippler_last fill_row_list by simp
qed

text \<open>
  Claim C8. \<open>safe_destination s step\<close> is the singleton bitboard of \<open>s + step\<close> when that
  square is on the board and its Chebyshev distance from \<open>s\<close> is at most 2, and the
  empty bitboard otherwise; a step of \<open>+1\<close> from the last file gives the empty bitboard.
\<close>

theorem safe_destination_contract:
  "safe_destination s step =
     (if is_ok (s + step) \<and> chebyshev s (s + step) \<le> 2 then square_bb (s + step) else 0) \<and>
   (\<forall>n. bit (safe_destination s step) n \<longleftrightarrow>
      is_ok (s + step) \<and> chebyshev s (s + step) \<le> 2 \<and> n = nat (s + step)) \<and>
   (s mod 8 = 7 \<longrightarrow> safe_destination s 1 = 0)"
proof -
  have d: "distance s t = chebyshev s t" for t
    by (simp add: distance_def chebyshev_def file_of_def rank_of_def abs_minus_commute)
  have a: "safe_destination s step =
     (if is_ok (s + step) \<and> chebyshev s (s + step) \<le> 2 then square_bb (s + step) else 0)"
    by (simp add: safe_destination_def Let_def d)
  have b: "\<forall>n. bit (safe_destination s step) n \<longleftrightarrow>
      is_ok (s + step) \<and> chebyshev s (s + step) \<le> 2 \<and> n = nat (s + step)"
    unfolding a by (auto simp: bit_square_bb is_ok_def)
  have c: "s mod 8 = 7 \<longrightarrow> safe_destination s 1 = 0"
  proof
    assume h: "s mod 8 = 7"
    have "(s + 1) mod 8 = 0" using h by presburger
    then have "chebyshev s (s + 1) > 2" using h by (simp add: chebyshev_def)
    then show "safe_destination s 1 = 0" by (simp add: safe_destination_def Let_def d)
  qed
  show ?thesis using a b c by blast
qed

theorem safe_destination_contract_witness:
  "safe_destination 7 1 = 0 \<and> safe_destination 6 1 = square_bb 7 \<and> bit (safe_destination 6 1) 7"
  using safe_destination_contract [of 7 1] safe_destination_contract [of 6 1]
  by (simp add: is_ok_def chebyshev_def bit_square_bb)

text \<open>
  Claim C10. If the occupancy contains the origin square, \<open>sliding_attack\<close> returns the
  empty bitboard: the test of the current square ends every ray before its first step.
\<close>

theorem sliding_attack_occupied_origin:
  "is_ok sq \<Longrightarrow> bit occupied (nat sq) \<Longrightarrow> sliding_attack pt sq occupied = 0"
proof -
  assume ok: "is_ok sq" and b: "bit occupied (nat sq)"
  have "occupied AND square_bb sq \<noteq> 0" using and_square_bb_iff [OF ok] b by simp
  then show ?thesis by (rule sliding_attack_blocked_origin)
qed

theorem sliding_attack_occupied_origin_witness:
  "is_ok 27 \<and> bit (0x08000000 :: Bitboard) (nat 27) \<and> sliding_attack ROOK 27 0x08000000 = 0
   \<and> sliding_attack BISHOP 27 0x08000000 = 0"
  using sliding_attack_occupied_origin [of 27 "0x08000000" ROOK]
    sliding_attack_occupied_origin [of 27 "0x08000000" BISHOP]
  by (simp add: is_ok_def)

text \<open>
  Claim C9. The result of \<open>sliding_attack\<close> never contains the origin square.
\<close>

theorem sliding_attack_excludes_origin:
  "is_ok sq \<Longrightarrow> \<not> bit (sliding_attack pt sq occupied) (nat sq)"
proof
  assume ok: "is_ok sq" and b: "bit (sliding_attack pt sq occupied) (nat sq)"
  have "bit (0 :: Bitboard) (nat sq) \<or> int (nat sq) \<noteq> sq"
    using b unfolding sliding_attack_def by (rule foldl_ray_walk_bits)
  then show False using ok by (simp add: is_ok_def)
qed

theorem sliding_attack_excludes_origin_witness:
  "is_ok 27 \<and> \<not> bit (sliding_attack ROOK 27 0) (nat 27) \<and> sliding_attack ROOK 27 0 = 0x08080808F7080808"
  using sliding_attack_excludes_origin [of 27 ROOK 0]
  by (simp add: eval_simps)

text \<open>
  Claim C3, as stated, for every occupancy: \<open>sliding_attack\<close> is the walk of the
  specification. It fails when the origin itself is occupied: the rook on \<open>SQ_A1\<close> with
  \<open>SQ_A1\<close> occupied attacks nothing in the code, and a whole rank and file in the walk of
  the specification.
\<close>

theorem sliding_attack_walk_counterexample:
  "sliding_attack ROOK 0 1 = 0 \<and> spec_sliding_attack ROOK 0 1 = 0x01010101010101FE"
  by (simp add: eval_simps)

text \<open>
  Claim C3, amended: for every occupancy that does not contain the origin square,
  \<open>sliding_attack\<close> is the walk of the specification along the four directions of the
  category.
\<close>

theorem sliding_attack_walk_unoccupied_origin:
  "is_ok sq \<Longrightarrow> \<not> bit occupied (nat sq) \<Longrightarrow>
     sliding_attack pt sq occupied = spec_sliding_attack pt sq occupied"
proof -
  assume ok: "is_ok sq" and nb: "\<not> bit occupied (nat sq)"
  have z: "occupied AND square_bb sq = 0" using and_square_bb_iff [OF ok] nb by blast
  have "foldl (\<lambda>attacks d. ray_walk d occupied sq attacks) a ds =
        foldl (\<lambda>result d. result OR spec_ray d occupied sq) a ds" for a ds
    by (induction ds arbitrary: a) (simp_all add: ray_walk_spec [of _ occupied sq] z)
  then show ?thesis by (simp add: sliding_attack_def spec_sliding_attack_def)
qed

theorem sliding_attack_walk_unoccupied_origin_witness:
  "is_ok 0 \<and> \<not> bit (0x0000000001000000 :: Bitboard) (nat 0) \<and>
   sliding_attack ROOK 0 0x0000000001000000 = spec_sliding_attack ROOK 0 0x0000000001000000 \<and>
   sliding_attack ROOK 0 0x0000000001000000 = 0x00000000010101FE"
  using sliding_attack_walk_unoccupied_origin [of 0 "0x0000000001000000" ROOK]
  by (simp add: eval_simps)

text \<open>
  Claim C7. For every square and both sliding categories, the mask of the square's magic
  descriptor is the empty-board sliding attack from the square without the board-edge
  squares (rank 1 or 8 unless the square is on that rank, file A or H unless the square is
  on that file); a bit of \<open>edges s\<close> is set exactly at such an edge square, so the mask
  contains none of them.
\<close>

theorem relevant_mask_excludes_edges:
  "is_ok s \<Longrightarrow>
     mask_bb (init_rook_magic ! nat s) = sliding_attack ROOK s 0 AND NOT (edges s) \<and>
     mask_bb (init_bishop_magic ! nat s) = sliding_attack BISHOP s 0 AND NOT (edges s) \<and>
     (\<forall>n. bit (edges s) n \<longleftrightarrow> n < 64 \<and> is_edge_for s n) \<and>
     (\<forall>n. bit (mask_bb (init_rook_magic ! nat s)) n \<longleftrightarrow>
            bit (sliding_attack ROOK s 0) n \<and> \<not> is_edge_for s n) \<and>
     (\<forall>n. bit (mask_bb (init_bishop_magic ! nat s)) n \<longleftrightarrow>
            bit (sliding_attack BISHOP s 0) n \<and> \<not> is_edge_for s n)"
proof -
  assume ok: "is_ok s"
  then have n: "nat s < 64" "int (nat s) = s" by (auto simp: is_ok_def)
  have r: "mask_bb (init_rook_magic ! nat s) = sliding_attack ROOK s 0 AND NOT (edges s)"
    using rook_magic_nth [OF n(1)] n(2) by simp
  have b: "mask_bb (init_bishop_magic ! nat s) = sliding_attack BISHOP s 0 AND NOT (edges s)"
    using bishop_magic_nth [OF n(1)] n(2) by simp
  have e: "\<forall>n. bit (edges s) n \<longleftrightarrow> n < 64 \<and> is_edge_for s n"
    using bit_edges [OF ok] by blast
  have "bit (w AND NOT (edges s)) k \<longleftrightarrow> bit w k \<and> \<not> is_edge_for s k" for w :: Bitboard and k
    using bit_edges [OF ok, of k] by (auto simp: bit_and_iff bit_not_iff dest: bit_imp_le_length)
  then show ?thesis using r b e by simp
qed

theorem relevant_mask_excludes_edges_witness:
  "is_ok 0 \<and> mask_bb (init_rook_magic ! nat 0) = 0x000101010101017E \<and>
   is_edge_for 0 56 \<and> \<not> bit (mask_bb (init_rook_magic ! nat 0)) 56"
proof -
  have ok: "is_ok 0" by (simp add: is_ok_def)
  note T = relevant_mask_excludes_edges [OF ok]
  have m: "mask_bb (init_rook_magic ! nat 0) = sliding_attack ROOK 0 0 AND NOT (edges 0)"
    by (rule T [THEN conjunct1])
  have b: "bit (mask_bb (init_rook_magic ! nat 0)) 56 \<longleftrightarrow>
            bit (sliding_attack ROOK 0 0) 56 \<and> \<not> is_edge_for 0 56"
    by (rule T [THEN conjunct2, THEN conjunct2, THEN conjunct2, THEN conjunct1, THEN spec])
  have e: "is_edge_for 0 56" by (simp add: is_edge_for_def)
  have v: "mask_bb (init_rook_magic ! nat 0) = 0x000101010101017E"
    by (simp only: m rook_attack_a1 edges_a1) simp
  have nb: "\<not> bit (mask_bb (init_rook_magic ! nat 0)) 56"
    using b e by blast
  show ?thesis using ok v e nb by blast
qed

text \<open>
  Claim C1 at a concrete input. With the index function of the specification (multiply and
  take the top bits), the rook descriptor of \<open>SQ_A1\<close> sends the two subsets \<open>{}\<close> and
  \<open>{SQ_B1}\<close> of its mask to the same index 0, so the builder's assertion
  \<open>occured[idx] == false\<close> fails in its second iteration; the bishop table fails in
  the same way (at \<open>SQ_B1\<close>).
\<close>

theorem magic_index_collision:
  "mask_bb (init_rook_magic ! 0) = 0x000101010101017E \<and>
   magic (init_rook_magic ! 0) = 0x0000002044010082 \<and>
   (0 :: Bitboard) AND mask_bb (init_rook_magic ! 0) = 0 \<and>
   (2 :: Bitboard) AND mask_bb (init_rook_magic ! 0) = 2 \<and>
   Magic_index RookBits (init_rook_magic ! 0) 0 = 0 \<and>
   Magic_index RookBits (init_rook_magic ! 0) 2 = 0 \<and>
   init_table True ROOK RookBits init_rook_magic = Inl AssertionFailed \<and>
   init_table True BISHOP BishopBits init_bishop_magic = Inl AssertionFailed"
  using rook_a1_index init_table_rook_fails init_table_bishop_fails
  by (simp add: rook_magic_a1)

text \<open>
  Claim C2 at a concrete input, the bishop on \<open>SQ_A4\<close> and the empty occupancy (the call
  \<open>attacks_bb<BISHOP>(s1, 0)\<close> of \<open>Bitboards::init\<close>). With assertions checked,
  initialization stops at the failed assertion of the table builder and there is no
  table to look up. With assertions compiled out, the slot \<open>table[SQ_A4][index(0)]\<close> is
  overwritten by the colliding subset \<open>{SQ_D7}\<close>, and the lookup returns the ray cut at
  \<open>SQ_D7\<close>, while \<open>sliding_attack\<close> and the walk of the specification give the whole
  diagonals.
\<close>

theorem lookup_a4_empty_board:
  "attacks_after_init True BISHOP 24 0 = Inl AssertionFailed \<and>
   attacks_after_init False BISHOP 24 0 = Inr 0x0008040200020408 \<and>
   sliding_attack BISHOP 24 0 = 0x1008040200020408 \<and>
   spec_sliding_attack BISHOP 24 0 = 0x1008040200020408 \<and>
   (0 :: Bitboard) AND mask_bb (init_bishop_magic ! 24) = 0 \<and>
   (0x0008000000000000 :: Bitboard) AND mask_bb (init_bishop_magic ! 24) = 0x0008000000000000 \<and>
   Magic_index BishopBits (init_bishop_magic ! 24) 0 =
     Magic_index BishopBits (init_bishop_magic ! 24) 0x0008000000000000 \<and>
   sliding_attack BISHOP 24 0x0008000000000000 = 0x0008040200020408"
proof -
  obtain t where t: "Bitboards_init False = Inr t"
    using Bitboards_init_unchecked by blast
  have u: "attacks_after_init False BISHOP 24 0 = Inr 0x0008040200020408"
    using init_unchecked_a4_d1(1) [OF t] by (simp add: attacks_after_init_def t)
  have c: "attacks_after_init True BISHOP 24 0 = Inl AssertionFailed"
    by (simp add: attacks_after_init_def Bitboards_init_checked_fails)
  have o: "spec_sliding_attack BISHOP 24 0 = 0x1008040200020408"
    by (simp add: eval_simps)
  have m: "(0 :: Bitboard) AND mask_bb (init_bishop_magic ! 24) = 0"
    "(0x0008000000000000 :: Bitboard) AND mask_bb (init_bishop_magic ! 24) = 0x0008000000000000"
    by (simp_all add: bishop_magic_a4)
  have i: "Magic_index BishopBits (init_bishop_magic ! 24) 0 =
           Magic_index BishopBits (init_bishop_magic ! 24) 0x0008000000000000"
    by (simp add: bishop_magic_a4 Magic_index_def BishopBits_def)
  show ?thesis
    using u c o m i bishop_attack_a4 bishop_attack_a4_blocked by blast
qed

text \<open>
  Claim C6 at a concrete input, the pair \<open>SQ_A4\<close>, \<open>SQ_D1\<close> on one diagonal. With
  assertions checked, initialization stops at the failed assertion of the table builder
  and no line table exists. With assertions compiled out, the colliding multipliers leave
  wrong entries in the bishop table and \<open>LineBB[SQ_A4][SQ_D1]\<close> is \<open>{SQ_D1, SQ_C2, SQ_A4}\<close>,
  while the intersection of the two empty-board rays with both squares added is
  \<open>{SQ_D1, SQ_C2, SQ_B3, SQ_A4}\<close>.
\<close>

theorem line_through_a4_d1:
  "line_after_init True 24 3 = Inl AssertionFailed \<and>
   line_after_init False 24 3 = Inr 0x0000000001000408 \<and>
   bit (sliding_attack BISHOP 24 0) 3 \<and>
   (sliding_attack BISHOP 24 0 AND sliding_attack BISHOP 3 0) OR square_bb 24 OR square_bb 3
     = 0x0000000001020408"
proof -
  obtain t where t: "Bitboards_init False = Inr t"
    using Bitboards_init_unchecked by blast
  have ok: "is_ok 24" "is_ok 3" by (simp_all add: is_ok_def)
  note a = init_unchecked_a4_d1 [OF t]
  have "LineBB t 24 3 = derived_line t 24 3 0"
    by (rule derived_after_init [OF t ok])
  also have "\<dots> = 0x0000000001000408"
    by (simp add: derived_line_def line_val_def a) (simp add: square_bb_def)
  finally have u: "line_after_init False 24 3 = Inr 0x0000000001000408"
    by (simp add: line_after_init_def t)
  have c: "line_after_init True 24 3 = Inl AssertionFailed"
    by (simp add: line_after_init_def Bitboards_init_checked_fails)
  have e: "bit (sliding_attack BISHOP 24 0) 3"
    "(sliding_attack BISHOP 24 0 AND sliding_attack BISHOP 3 0) OR square_bb 24 OR square_bb 3
       = 0x0000000001020408"
    by (simp_all add: bishop_attack_a4 bishop_attack_d1 square_bb_def)
  show ?thesis using u c e by blast
qed

text \<open>
  Claim C5 at a concrete input, the pair \<open>SQ_A4\<close>, \<open>SQ_D1\<close> on one diagonal. With
  assertions checked, initialization stops at the failed assertion of the table builder.
  With assertions compiled out, \<open>BetweenBB[SQ_A4][SQ_D1]\<close> is \<open>{SQ_D1, SQ_C2}\<close>, while the
  squares strictly between the two together with \<open>SQ_D1\<close> are \<open>{SQ_D1, SQ_C2, SQ_B3}\<close>.
  (The destination square itself is always present, and \<open>BetweenBB[s][s]\<close> is \<open>{s}\<close>:
  lemmas \<open>between_contains_destination\<close> and \<open>between_same_square\<close>.)
\<close>

theorem between_a4_d1:
  "between_after_init True 24 3 = Inl AssertionFailed \<and>
   between_after_init False 24 3 = Inr 0x0000000000000408 \<and>
   bit (sliding_attack BISHOP 24 0) 3 \<and>
   (sliding_attack BISHOP 24 (square_bb 3) AND sliding_attack BISHOP 3 (square_bb 24)) OR square_bb 3
     = 0x0000000000020408"
proof -
  obtain t where t: "Bitboards_init False = Inr t"
    using Bitboards_init_unchecked by blast
  have ok: "is_ok 24" "is_ok 3" by (simp_all add: is_ok_def)
  note a = init_unchecked_a4_d1 [OF t]
  have "BetweenBB t 24 3 = derived_between t 24 3 0"
    by (rule derived_after_init [OF t ok])
  also have "\<dots> = 0x0000000000000408"
    by (simp add: derived_between_def between_val_def a) (simp add: square_bb_def)
  finally have u: "between_after_init False 24 3 = Inr 0x0000000000000408"
    by (simp add: between_after_init_def t)
  have c: "between_after_init True 24 3 = Inl AssertionFailed"
    by (simp add: between_after_init_def Bitboards_init_checked_fails)
  have e1: "bit (sliding_attack BISHOP 24 0) 3"
    by (simp add: bishop_attack_a4)
  have e2: "(sliding_attack BISHOP 24 (square_bb 3) AND sliding_attack BISHOP 3 (square_bb 24)) OR square_bb 3
       = 0x0000000000020408"
    by (simp add: eval_simps)
  show ?thesis using u c e1 e2 by blast
qed

end
